theory Spec2Isabelle
  imports Main "HOL-Library.Signed_Division"
begin

unbundle bit_operations_syntax

section \<open>Machine integers and byte strings\<close>

text \<open>
  The C++ types \<open>int\<close> (32 bits) and \<open>qint64\<close> are modelled on \<open>int\<close>, with the
  two's-complement wrap-around written out at every assignment and arithmetic result of that
  type. Division and remainder are the truncating ones of C++ (\<open>sdiv\<close>, \<open>smod\<close>).
\<close>

definition to_int :: "int \<Rightarrow> int" where
  "to_int x = (x + 2 ^ 31) mod 2 ^ 32 - 2 ^ 31"

definition to_qint64 :: "int \<Rightarrow> int" where
  "to_qint64 x = (x + 2 ^ 63) mod 2 ^ 64 - 2 ^ 63"

text \<open>A \<open>QByteArray\<close> is a list of bytes; \<open>uchar\<close> values are naturals below 256.\<close>

type_synonym byte = nat
type_synonym QByteArray = "byte list"

definition to_uchar :: "int \<Rightarrow> byte" where
  "to_uchar x = nat (x mod 256)"

text \<open>
  Modelled from the spec: the constant \<open>MB\<close> is declared in volumetester.hpp, which is not
  part of the sources; the spec's megabyte is 1 MiB.
\<close>

definition MB :: int where
  "MB = 1024 * 1024"

text \<open>\<open>QString::number\<close> on an \<open>int\<close>: the decimal digits, with a sign when negative.\<close>

fun number_nat :: "nat \<Rightarrow> string" where
  "number_nat n =
     (if n < 10 then [char_of (48 + n)]
      else number_nat (n div 10) @ [char_of (48 + n mod 10)])"

declare number_nat.simps [simp del]

definition number :: "int \<Rightarrow> string" where
  "number i = (if i < 0 then CHR ''-'' # number_nat (nat (- i)) else number_nat (nat i))"

definition toUtf8 :: "string \<Rightarrow> QByteArray" where
  "toUtf8 s = map of_char s"

text \<open>\<open>QDir(mountpoint).absoluteFilePath(name)\<close> for a file name in the root of the volume.\<close>

definition absoluteFilePath :: "string \<Rightarrow> string \<Rightarrow> string" where
  "absoluteFilePath dir name = (if dir \<noteq> [] \<and> last dir = CHR ''/'' then dir @ name else dir @ ''/'' @ name)"

section \<open>The plan: files and blocks\<close>

text \<open>
  The structs \<open>BlockInfo\<close> and \<open>FileInfo\<close>. Their declarations are in the header; each
  field has the type of the local variable that \<open>start\<close> stores in it. Field names carry a
  prefix, since both structs have \<open>size\<close> and \<open>id\<close>.
\<close>

record BlockInfo =
  b_rel_offset :: int
  b_abs_offset :: int
  b_size :: int
  b_abs_end :: int
  b_id :: QByteArray

record FileInfo =
  f_path :: string
  f_offset :: int
  f_size :: int
  f_end :: int
  f_id :: QByteArray
  f_blocks :: "BlockInfo list"

datatype abort = AssertionFailed

text \<open>
  The inner loop of \<open>start\<close> (lines 452-479), for file \<open>i\<close> at offset \<open>offset\<close>:
  \<open>j\<close> counts up to \<open>block_count\<close>, which is an \<open>int\<close>, so \<open>j++\<close> does not overflow.
\<close>

function start_blocks ::
  "int \<Rightarrow> int \<Rightarrow> int \<Rightarrow> int \<Rightarrow> int \<Rightarrow> int \<Rightarrow> BlockInfo list \<Rightarrow> abort + BlockInfo list" where
  "start_blocks block_size_max i offset block_count last_block_size j blocks =
     (if j < block_count then
        (let block_size = (if j = to_int (block_count - 1) \<and> last_block_size \<noteq> 0
                           then last_block_size else to_int block_size_max)
         in if \<not> block_size > 0 then Inl AssertionFailed
            else
              (let pos = to_qint64 (j * block_size_max)
               in if \<not> pos \<ge> 0 then Inl AssertionFailed
                  else
                    (let end = to_qint64 (pos + block_size);
                         id_bytes = toUtf8 (number i @ '':'' @ number j) @ [1];
                         block_info = \<lparr> b_rel_offset = pos,
                                        b_abs_offset = to_qint64 (offset + pos),
                                        b_size = block_size,
                                        b_abs_end = to_qint64 (offset + end),
                                        b_id = id_bytes \<rparr>
                     in start_blocks block_size_max i offset block_count last_block_size
                          (j + 1) (blocks @ [block_info]))))
      else Inr blocks)"
  by pat_completeness auto
termination
  by (relation "measure (\<lambda>(bsm, i, off, bc, lbs, j, bs). nat (bc - j))") auto

declare start_blocks.simps [simp del]

text \<open>The outer loop of \<open>start\<close> (lines 418-484).\<close>

function start_files ::
  "string \<Rightarrow> string \<Rightarrow> int \<Rightarrow> int \<Rightarrow> int \<Rightarrow> int \<Rightarrow> int \<Rightarrow> FileInfo list \<Rightarrow> abort + FileInfo list" where
  "start_files dir file_prefix file_size_max block_size_max file_count last_file_size i file_infos =
     (if i < file_count then
        (let size = (if i = to_int (file_count - 1) \<and> last_file_size \<noteq> 0
                     then last_file_size else to_int file_size_max)
         in if \<not> size > 0 then Inl AssertionFailed
            else
              (let pos = to_qint64 (i * file_size_max)
               in if \<not> pos \<ge> 0 then Inl AssertionFailed
                  else
                    (let end = to_qint64 (pos + size);
                         name = file_prefix @ number i;
                         path = absoluteFilePath dir name;
                         id_bytes = toUtf8 (number i) @ [1];
                         block_count0 = to_int (size sdiv block_size_max);
                         last_block_size = to_int (size smod block_size_max);
                         block_count = (if last_block_size \<noteq> 0 then to_int (block_count0 + 1)
                                        else block_count0)
                     in case start_blocks block_size_max i pos block_count last_block_size 0 [] of
                          Inl e \<Rightarrow> Inl e
                        | Inr blocks \<Rightarrow>
                            if int (length blocks) \<noteq> block_count then Inl AssertionFailed
                            else
                              (let file_info = \<lparr> f_path = path, f_offset = pos, f_size = size,
                                                 f_end = end, f_id = id_bytes, f_blocks = blocks \<rparr>
                               in start_files dir file_prefix file_size_max block_size_max
                                    file_count last_file_size (i + 1) (file_infos @ [file_info])))))
      else Inr file_infos)"
  by pat_completeness auto
termination
  by (relation "measure (\<lambda>(d, p, fsm, bsm, fc, lfs, i, fs). nat (fc - i))") auto

declare start_files.simps [simp del]

text \<open>The block "Calculate file and block sizes" of \<open>start\<close> (lines 411-485).\<close>

definition start_calculate :: "string \<Rightarrow> string \<Rightarrow> int \<Rightarrow> int \<Rightarrow> int \<Rightarrow> abort + FileInfo list" where
  "start_calculate dir file_prefix bytes_total file_size_max block_size_max =
     (let file_count0 = to_int (bytes_total sdiv file_size_max);
          last_file_size = to_int (bytes_total smod file_size_max);
          file_count = (if last_file_size \<noteq> 0 then to_int (file_count0 + 1) else file_count0)
      in start_files dir file_prefix file_size_max block_size_max file_count last_file_size 0 [])"


section \<open>The tester object and its environment\<close>

text \<open>
  Modelled from the spec: the enum \<open>Error::Type\<close> is declared in volumetester.hpp, which
  is not part of the sources. The spec calls it a bitmask of combinable flags; the numeric
  value of each flag is a parameter of the model.
\<close>

record Error =
  Unknown :: int
  Aborted :: int
  Full :: int
  Create :: int
  Permissions :: int
  Resize :: int
  Write :: int
  Verify :: int

text \<open>What a \<open>QStorageInfo\<close> object answers for a path.\<close>

record QStorageInfo =
  si_isValid :: bool
  si_isReady :: bool
  si_rootPath :: string
  si_bytesAvailable :: int

text \<open>
  One entry per call of a \<open>QFile\<close> method (or of \<open>fsync\<close>), with the path of the
  file, the arguments and the value the call returned. \<open>QOpen\<close> carries the result of
  \<open>open\<close> and whether \<open>error()\<close> has the \<open>PermissionsError\<close> bit.
\<close>

datatype io =
    QOpen string bool bool
  | QSeek string int bool
  | QWrite string QByteArray int
  | QResize string int bool
  | QPutChar string byte bool
  | QGetChar string "byte option"
  | QRead string int QByteArray
  | QFsync string
  | QRemove string bool

text \<open>
  The operating system and the user, as seen by the tester: a state \<open>'e\<close> and what each
  library call returns in it. Nothing is assumed about these functions, so a theorem that
  holds for every device covers every fault the filesystem can show. \<open>cancel_requested\<close>
  tells whether the user has called \<open>cancel()\<close> by now; \<open>rand_seq e i\<close> is the value of the
  \<open>i\<close>-th call of \<open>rand()\<close> after \<open>srand(time(0))\<close>; \<open>USE_FSYNC\<close> is the
  compile-time macro of that name.
\<close>

record 'e device =
  storage :: "'e \<Rightarrow> string \<Rightarrow> QStorageInfo"
  dir_entryInfoList :: "'e \<Rightarrow> string \<Rightarrow> (string \<times> bool) list"
  rand_seq :: "'e \<Rightarrow> nat \<Rightarrow> nat"
  file_open :: "string \<Rightarrow> 'e \<Rightarrow> (bool \<times> bool) \<times> 'e"
  file_seek :: "string \<Rightarrow> int \<Rightarrow> 'e \<Rightarrow> bool \<times> 'e"
  file_write :: "string \<Rightarrow> QByteArray \<Rightarrow> 'e \<Rightarrow> int \<times> 'e"
  file_resize :: "string \<Rightarrow> int \<Rightarrow> 'e \<Rightarrow> bool \<times> 'e"
  file_putChar :: "string \<Rightarrow> byte \<Rightarrow> 'e \<Rightarrow> bool \<times> 'e"
  file_getChar :: "string \<Rightarrow> 'e \<Rightarrow> byte option \<times> 'e"
  file_read :: "string \<Rightarrow> int \<Rightarrow> 'e \<Rightarrow> QByteArray \<times> 'e"
  file_fsync :: "string \<Rightarrow> 'e \<Rightarrow> unit \<times> 'e"
  file_remove :: "string \<Rightarrow> 'e \<Rightarrow> bool \<times> 'e"
  cancel_requested :: "'e \<Rightarrow> bool"
  USE_FSYNC :: bool

text \<open>The signals of the class. The average speeds, computed from a timer, are left out.\<close>

datatype signal =
    failed "int option"
  | finished
  | succeeded
  | initializationStarted int
  | createFailed int int
  | writeFailed int int
  | verifyFailed int int
  | initialized int
  | writeStarted
  | written int
  | verifyStarted
  | verified int

text \<open>
  The members of a \<open>VolumeTester\<close>, followed by the world around it: the state of the
  environment, the calls made so far, the signals emitted so far, and \<open>cancel_pos\<close>, the
  number of calls that had been made when \<open>cancel()\<close> ran first (written by the model for
  the statements about cancellation, never read by the program).
\<close>

text \<open>The member \<open>file_prefix\<close> is written \<open>file_prefix'\<close>: the plain name is reserved in theory files.\<close>

record 'e session =
  block_size_max :: int
  file_size_max :: int
  file_prefix' :: string
  bytes_total :: int
  bytes_written :: int
  bytes_remaining :: int
  canceled :: bool
  error_type :: int
  mountpoint :: string
  pattern :: QByteArray
  file_infos :: "FileInfo list"
  env :: 'e
  oplog :: "io list"
  events :: "signal list"
  cancel_pos :: "nat option"

definition emit :: "signal \<Rightarrow> 'e session \<Rightarrow> 'e session" where
  "emit sig s = s\<lparr>events := events s @ [sig]\<rparr>"

definition cancel :: "Error \<Rightarrow> 'e session \<Rightarrow> 'e session" where
  "cancel E s = s\<lparr>error_type := error_type s OR Aborted E, canceled := True\<rparr>"

definition abortRequested :: "'e session \<Rightarrow> bool" where
  "abortRequested s = canceled s"

text \<open>
  \<open>cancel()\<close> is called from outside while \<open>start()\<close> runs. The tester reads the flag and
  the error mask only between library calls, so it is enough to let the call arrive right
  after any of them.
\<close>

definition deliver :: "Error \<Rightarrow> 'e device \<Rightarrow> 'e session \<Rightarrow> 'e session" where
  "deliver E dev s =
     (if cancel_requested dev (env s)
      then cancel E (s\<lparr>cancel_pos := (case cancel_pos s of None \<Rightarrow> Some (length (oplog s))
                                                          | Some n \<Rightarrow> Some n)\<rparr>)
      else s)"

definition call :: "Error \<Rightarrow> 'e device \<Rightarrow> ('e \<Rightarrow> 'r \<times> 'e) \<Rightarrow> ('r \<Rightarrow> io) \<Rightarrow> 'e session \<Rightarrow> 'r \<times> 'e session" where
  "call E dev f entry s =
     (case f (env s) of
        (r, e') \<Rightarrow> (r, deliver E dev (s\<lparr>env := e', oplog := oplog s @ [entry r]\<rparr>)))"

definition do_open :: "Error \<Rightarrow> 'e device \<Rightarrow> string \<Rightarrow> 'e session \<Rightarrow> (bool \<times> bool) \<times> 'e session" where
  "do_open E dev p = call E dev (file_open dev p) (\<lambda>(ok, perm). QOpen p ok perm)"

definition do_seek :: "Error \<Rightarrow> 'e device \<Rightarrow> string \<Rightarrow> int \<Rightarrow> 'e session \<Rightarrow> bool \<times> 'e session" where
  "do_seek E dev p pos = call E dev (file_seek dev p pos) (QSeek p pos)"

definition do_write :: "Error \<Rightarrow> 'e device \<Rightarrow> string \<Rightarrow> QByteArray \<Rightarrow> 'e session \<Rightarrow> int \<times> 'e session" where
  "do_write E dev p d = call E dev (file_write dev p d) (QWrite p d)"

definition do_resize :: "Error \<Rightarrow> 'e device \<Rightarrow> string \<Rightarrow> int \<Rightarrow> 'e session \<Rightarrow> bool \<times> 'e session" where
  "do_resize E dev p n = call E dev (file_resize dev p n) (QResize p n)"

definition do_putChar :: "Error \<Rightarrow> 'e device \<Rightarrow> string \<Rightarrow> byte \<Rightarrow> 'e session \<Rightarrow> bool \<times> 'e session" where
  "do_putChar E dev p b = call E dev (file_putChar dev p b) (QPutChar p b)"

definition do_getChar :: "Error \<Rightarrow> 'e device \<Rightarrow> string \<Rightarrow> 'e session \<Rightarrow> byte option \<times> 'e session" where
  "do_getChar E dev p = call E dev (file_getChar dev p) (QGetChar p)"

definition do_read :: "Error \<Rightarrow> 'e device \<Rightarrow> string \<Rightarrow> int \<Rightarrow> 'e session \<Rightarrow> QByteArray \<times> 'e session" where
  "do_read E dev p n = call E dev (file_read dev p n) (QRead p n)"

definition do_fsync :: "Error \<Rightarrow> 'e device \<Rightarrow> string \<Rightarrow> 'e session \<Rightarrow> 'e session" where
  "do_fsync E dev p s =
     (if USE_FSYNC dev then snd (call E dev (file_fsync dev p) (\<lambda>_. QFsync p) s) else s)"

definition do_remove :: "Error \<Rightarrow> 'e device \<Rightarrow> string \<Rightarrow> 'e session \<Rightarrow> bool \<times> 'e session" where
  "do_remove E dev p = call E dev (file_remove dev p) (QRemove p)"

section \<open>Queries\<close>

definition isValid_mountpoint :: "'e device \<Rightarrow> 'e \<Rightarrow> string \<Rightarrow> bool" where
  "isValid_mountpoint dev e mp =
     (if mp = [] then False
      else if \<not> si_isValid (storage dev e mp) \<or> si_rootPath (storage dev e mp) \<noteq> mp then False
      else if \<not> si_isReady (storage dev e mp) then False
      else True)"

definition isValid :: "'e device \<Rightarrow> 'e session \<Rightarrow> bool" where
  "isValid dev s = isValid_mountpoint dev (env s) (mountpoint s)"

definition bytesAvailable :: "'e device \<Rightarrow> 'e session \<Rightarrow> int" where
  "bytesAvailable dev s =
     (if si_isValid (storage dev (env s) (mountpoint s)) \<and> si_isReady (storage dev (env s) (mountpoint s))
      then si_bytesAvailable (storage dev (env s) (mountpoint s)) else 0)"

definition entryInfoList :: "'e device \<Rightarrow> 'e session \<Rightarrow> (string \<times> bool) list" where
  "entryInfoList dev s = (if \<not> isValid dev s then [] else dir_entryInfoList dev (env s) (mountpoint s))"

definition rootFiles :: "'e device \<Rightarrow> 'e session \<Rightarrow> string list" where
  "rootFiles dev s = map (\<lambda>(name, isDir). if isDir then name @ ''/'' else name) (entryInfoList dev s)"

definition startsWith :: "string \<Rightarrow> string \<Rightarrow> bool" where
  "startsWith name pre = (take (length pre) name = pre)"

definition conflictFiles :: "'e device \<Rightarrow> 'e session \<Rightarrow> abort + string list" where
  "conflictFiles dev s =
     (if file_prefix' s = [] then Inl AssertionFailed
      else Inr (filter (\<lambda>name. startsWith name (file_prefix' s)) (rootFiles dev s)))"

text \<open>The constructor.\<close>

definition VolumeTester :: "Error \<Rightarrow> 'e device \<Rightarrow> 'e \<Rightarrow> string \<Rightarrow> 'e session" where
  "VolumeTester E dev e mp =
     \<lparr> block_size_max = 16 * MB, file_size_max = 512 * MB, file_prefix' = ''CAPACITYTESTER'',
       bytes_total = 0, bytes_written = 0, bytes_remaining = 0, canceled = False,
       error_type = Unknown E,
       mountpoint = (if isValid_mountpoint dev e mp then mp else []),
       pattern = [], file_infos = [],
       env = e, oplog = [], events = [], cancel_pos = None \<rparr>"

section \<open>Pattern and block data\<close>

definition generateTestPattern :: "'e device \<Rightarrow> 'e session \<Rightarrow> abort + 'e session" where
  "generateTestPattern dev s =
     (let pattern_size = to_int (block_size_max s)
      in if \<not> pattern_size > 0 then Inl AssertionFailed
         else
           (let new_pattern =
                  fold (\<lambda>i p. p[i := to_uchar (int (rand_seq dev (env s) i) smod 254 + 1)])
                    [0..<nat pattern_size] (replicate (nat pattern_size) 0);
                s' = s\<lparr>pattern := new_pattern\<rparr>
            in if int (length (pattern s')) \<noteq> pattern_size then Inl AssertionFailed
               else Inr s'))"

text \<open>\<open>QByteArray::replace(pos, len, after)\<close>, for \<open>pos\<close> inside the array.\<close>

definition replace :: "nat \<Rightarrow> nat \<Rightarrow> QByteArray \<Rightarrow> QByteArray \<Rightarrow> QByteArray" where
  "replace pos len after b = take pos b @ after @ drop (pos + len) b"

definition blockData :: "'e session \<Rightarrow> int \<Rightarrow> int \<Rightarrow> abort + QByteArray" where
  "blockData s file_index block_index =
     (if \<not> (0 \<le> file_index \<and> file_index < int (length (file_infos s))) then Inl AssertionFailed
      else
        (let file_info = file_infos s ! nat file_index
         in if \<not> (0 \<le> block_index \<and> block_index < int (length (f_blocks file_info)))
            then Inl AssertionFailed
            else
              (let block_info = f_blocks file_info ! nat block_index;
                   block = pattern s
               in if block = [] then Inl AssertionFailed
                  else
                    (let block1 = (if int (length block) > b_size block_info
                                   then take (nat (b_size block_info)) block else block)
                     in if int (length block1) \<noteq> b_size block_info then Inl AssertionFailed
                        else if block1 = [] then Inl AssertionFailed
                        else
                          (let block2 = (if b_size block_info \<ge> int (length (b_id block_info))
                                         then replace 0 (length (b_id block_info)) (b_id block_info) block1
                                         else block1)
                           in if int (length block2) \<noteq> b_size block_info then Inl AssertionFailed
                              else Inr block2)))))"


section \<open>The three phases\<close>

definition add_error :: "int \<Rightarrow> 'e session \<Rightarrow> 'e session" where
  "add_error flag s = s\<lparr>error_type := error_type s OR flag\<rparr>"

definition byte_fe :: byte where
  "byte_fe = 254"

text \<open>
  The conditions \<open>!file->seek(pos) || ...\<close> of the source: the second call is made only
  when the seek has succeeded, and the whole test passes (\<open>True\<close> here) only when both do.
\<close>

definition seek_write :: "Error \<Rightarrow> 'e device \<Rightarrow> string \<Rightarrow> int \<Rightarrow> QByteArray \<Rightarrow> int \<Rightarrow> 'e session \<Rightarrow> bool \<times> 'e session" where
  "seek_write E dev file pos d expected s =
     (case do_seek E dev file pos s of
        (False, s1) \<Rightarrow> (False, s1)
      | (True, s1) \<Rightarrow> (case do_write E dev file d s1 of (n, s2) \<Rightarrow> (n = expected, s2)))"

definition seek_putChar :: "Error \<Rightarrow> 'e device \<Rightarrow> string \<Rightarrow> int \<Rightarrow> byte \<Rightarrow> 'e session \<Rightarrow> bool \<times> 'e session" where
  "seek_putChar E dev file pos b s =
     (case do_seek E dev file pos s of
        (False, s1) \<Rightarrow> (False, s1)
      | (True, s1) \<Rightarrow> do_putChar E dev file b s1)"

definition seek_getChar :: "Error \<Rightarrow> 'e device \<Rightarrow> string \<Rightarrow> int \<Rightarrow> byte \<Rightarrow> 'e session \<Rightarrow> bool \<times> 'e session" where
  "seek_getChar E dev file pos b s =
     (case do_seek E dev file pos s of
        (False, s1) \<Rightarrow> (False, s1)
      | (True, s1) \<Rightarrow> (case do_getChar E dev file s1 of (c, s2) \<Rightarrow> (c = Some b, s2)))"

definition seek_read :: "Error \<Rightarrow> 'e device \<Rightarrow> string \<Rightarrow> int \<Rightarrow> int \<Rightarrow> QByteArray \<Rightarrow> 'e session \<Rightarrow> bool \<times> 'e session" where
  "seek_read E dev file pos n expected s =
     (case do_seek E dev file pos s of
        (False, s1) \<Rightarrow> (False, s1)
      | (True, s1) \<Rightarrow> (case do_read E dev file n s1 of (d, s2) \<Rightarrow> (d = expected, s2)))"

text \<open>
  The quick test of one file: "Verify last byte", "Verify id" and "Cancel gracefully". The
  source has this text twice, at the end of the body of the first loop of \<open>initialize\<close>
  (lines 604-626) and as the body of the second loop (lines 636-658). The result \<open>False\<close> is
  the \<open>return false\<close> of the source.
\<close>

definition initialize_verify :: "Error \<Rightarrow> 'e device \<Rightarrow> nat \<Rightarrow> 'e session \<Rightarrow> bool \<times> 'e session" where
  "initialize_verify E dev i s =
     (let file_info = file_infos s ! i; file = f_path file_info
      in case seek_getChar E dev file (to_int (f_size file_info - 1)) byte_fe s of
           (False, s1) \<Rightarrow>
             (False, emit (verifyFailed (f_offset file_info) (f_size file_info))
                       (add_error (Verify E) s1))
         | (True, s1) \<Rightarrow>
             (case seek_read E dev file 0 (int (length (f_id file_info))) (f_id file_info) s1 of
                (False, s2) \<Rightarrow>
                  (False, emit (verifyFailed (f_offset file_info) (f_size file_info))
                            (add_error (Verify E) s2))
              | (True, s2) \<Rightarrow> if abortRequested s2 then (False, s2) else (True, s2)))"

text \<open>The body of the first loop of \<open>initialize\<close> for file \<open>i\<close>, up to the quick test (lines 547-599).\<close>

definition initialize_create :: "Error \<Rightarrow> 'e device \<Rightarrow> nat \<Rightarrow> 'e session \<Rightarrow> bool \<times> 'e session" where
  "initialize_create E dev i s =
     (let file_info = file_infos s ! i; file = f_path file_info
      in case do_open E dev file s of
           ((False, perm), s1) \<Rightarrow>
             (False, emit (createFailed (int i) (f_offset file_info))
                       ((if perm then add_error (Permissions E) (add_error (Create E) s1)
                         else add_error (Create E) s1)))
         | ((True, perm), s1) \<Rightarrow>
             (case seek_write E dev file 0 (f_id file_info) (int (length (f_id file_info))) s1 of
                (False, s2) \<Rightarrow>
                  (False, emit (writeFailed (f_offset file_info) (f_size file_info))
                            (add_error (Write E) s2))
              | (True, s2) \<Rightarrow>
                  (case do_resize E dev file (f_size file_info) s2 of
                     (False, s3) \<Rightarrow>
                       (False, emit (writeFailed (f_offset file_info) (f_size file_info))
                                 (add_error (Resize E) (add_error (Write E) s3)))
                   | (True, s3) \<Rightarrow>
                       (case seek_putChar E dev file (to_int (f_size file_info - 1)) byte_fe s3 of
                          (False, s4) \<Rightarrow>
                            (False, emit (writeFailed (f_offset file_info) (f_size file_info))
                                      (add_error (Write E) s4))
                        | (True, s4) \<Rightarrow> (True, emit (initialized (f_end file_info)) s4)))))"

definition initialize_file :: "Error \<Rightarrow> 'e device \<Rightarrow> nat \<Rightarrow> 'e session \<Rightarrow> bool \<times> 'e session" where
  "initialize_file E dev i s =
     (case initialize_create E dev i s of
        (False, s1) \<Rightarrow> (False, s1)
      | (True, s1) \<Rightarrow> initialize_verify E dev i s1)"

text \<open>
  A loop \<open>for (int i = 0, ii = ...; i < ii; i++)\<close> whose body may \<open>return false\<close>: the
  indices still to visit are a list, and the loop stops at the first body that returns
  \<open>False\<close>.
\<close>

fun for_each :: "(nat \<Rightarrow> 's \<Rightarrow> bool \<times> 's) \<Rightarrow> nat list \<Rightarrow> 's \<Rightarrow> bool \<times> 's" where
  "for_each body [] s = (True, s)"
| "for_each body (i # is) s =
     (case body i s of
        (False, s') \<Rightarrow> (False, s')
      | (True, s') \<Rightarrow> for_each body is s')"

definition initialize :: "Error \<Rightarrow> 'e device \<Rightarrow> 'e session \<Rightarrow> bool \<times> 'e session" where
  "initialize E dev s =
     (case for_each (initialize_file E dev) [0..<length (file_infos s)]
             (emit (initializationStarted (bytes_total s)) s) of
        (False, s1) \<Rightarrow> (False, s1)
      | (True, s1) \<Rightarrow> for_each (initialize_verify E dev) [0..<length (file_infos s1)] s1)"

text \<open>
  The loops of \<open>writeFull\<close> and \<open>verifyFull\<close> also call \<open>blockData\<close>, whose assertions
  can end the program: the same loop, with that third outcome.
\<close>

fun for_each_a :: "(nat \<Rightarrow> 's \<Rightarrow> abort + bool \<times> 's) \<Rightarrow> nat list \<Rightarrow> 's \<Rightarrow> abort + bool \<times> 's" where
  "for_each_a body [] s = Inr (True, s)"
| "for_each_a body (i # is) s =
     (case body i s of
        Inl a \<Rightarrow> Inl a
      | Inr (False, s') \<Rightarrow> Inr (False, s')
      | Inr (True, s') \<Rightarrow> for_each_a body is s')"

text \<open>The body of the inner loop of \<open>writeFull\<close> for block \<open>j\<close> of file \<open>i\<close> (lines 690-720).\<close>

definition writeFull_block :: "Error \<Rightarrow> 'e device \<Rightarrow> nat \<Rightarrow> nat \<Rightarrow> 'e session \<Rightarrow> abort + bool \<times> 'e session" where
  "writeFull_block E dev i j s =
     (let file_info = file_infos s ! i; file = f_path file_info;
          block_info = f_blocks file_info ! j
      in case blockData s (int i) (int j) of
           Inl a \<Rightarrow> Inl a
         | Inr block \<Rightarrow>
             (case seek_write E dev file (b_rel_offset block_info) block (b_size block_info) s of
                (False, s1) \<Rightarrow>
                  Inr (False, emit (writeFailed (b_abs_offset block_info) (b_size block_info))
                                (add_error (Write E) s1))
              | (True, s1) \<Rightarrow>
                  (let s2 = do_fsync E dev file s1;
                       s3 = emit (written (b_abs_end block_info)) s2
                   in if abortRequested s3 then Inr (False, s3) else Inr (True, s3))))"

text \<open>The body of the outer loop of \<open>writeFull\<close> for file \<open>i\<close> (lines 678-721).\<close>

definition writeFull_file :: "Error \<Rightarrow> 'e device \<Rightarrow> nat \<Rightarrow> 'e session \<Rightarrow> abort + bool \<times> 'e session" where
  "writeFull_file E dev i s =
     (let file_info = file_infos s ! i; file = f_path file_info;
          s1 = do_fsync E dev file s
      in for_each_a (writeFull_block E dev i) [0..<length (f_blocks file_info)] s1)"

definition writeFull :: "Error \<Rightarrow> 'e device \<Rightarrow> 'e session \<Rightarrow> abort + bool \<times> 'e session" where
  "writeFull E dev s =
     for_each_a (writeFull_file E dev) [0..<length (file_infos s)] (emit writeStarted s)"

text \<open>The body of the inner loop of \<open>verifyFull\<close> (lines 750-775).\<close>

definition verifyFull_block :: "Error \<Rightarrow> 'e device \<Rightarrow> nat \<Rightarrow> nat \<Rightarrow> 'e session \<Rightarrow> abort + bool \<times> 'e session" where
  "verifyFull_block E dev i j s =
     (let file_info = file_infos s ! i; file = f_path file_info;
          block_info = f_blocks file_info ! j
      in case blockData s (int i) (int j) of
           Inl a \<Rightarrow> Inl a
         | Inr block \<Rightarrow>
             (case seek_read E dev file (b_rel_offset block_info) (b_size block_info) block s of
                (False, s1) \<Rightarrow>
                  Inr (False, emit (verifyFailed (b_abs_offset block_info) (b_size block_info))
                                (add_error (Verify E) s1))
              | (True, s1) \<Rightarrow>
                  (let s2 = emit (verified (b_abs_end block_info)) s1
                   in if abortRequested s2 then Inr (False, s2) else Inr (True, s2))))"

definition verifyFull_file :: "Error \<Rightarrow> 'e device \<Rightarrow> nat \<Rightarrow> 'e session \<Rightarrow> abort + bool \<times> 'e session" where
  "verifyFull_file E dev i s =
     (let file_info = file_infos s ! i; file = f_path file_info;
          s1 = do_fsync E dev file s
      in for_each_a (verifyFull_block E dev i) [0..<length (f_blocks file_info)] s1)"

definition verifyFull :: "Error \<Rightarrow> 'e device \<Rightarrow> 'e session \<Rightarrow> abort + bool \<times> 'e session" where
  "verifyFull E dev s =
     for_each_a (verifyFull_file E dev) [0..<length (file_infos s)] (emit verifyStarted s)"

section \<open>Cleanup and the run\<close>

text \<open>
  \<open>deleteFiles\<close>: the loop \<open>for (int i = file_infos.size(); --i >= 0;)\<close> visits
  \<open>size - 1, ..., 0\<close>; the result of \<open>remove()\<close> is not looked at.
\<close>

definition removeAt :: "nat \<Rightarrow> 'a list \<Rightarrow> 'a list" where
  "removeAt i xs = take i xs @ drop (Suc i) xs"

fun deleteFiles_loop :: "Error \<Rightarrow> 'e device \<Rightarrow> nat \<Rightarrow> 'e session \<Rightarrow> 'e session" where
  "deleteFiles_loop E dev 0 s = s"
| "deleteFiles_loop E dev (Suc i) s =
     (let file_info = file_infos s ! i;
          s1 = snd (do_remove E dev (f_path file_info) s);
          s2 = s1\<lparr>file_infos := removeAt i (file_infos s1)\<rparr>
      in deleteFiles_loop E dev i s2)"

definition deleteFiles :: "Error \<Rightarrow> 'e device \<Rightarrow> 'e session \<Rightarrow> abort + 'e session" where
  "deleteFiles E dev s =
     (let s' = deleteFiles_loop E dev (length (file_infos s)) s
      in if file_infos s' \<noteq> [] then Inl AssertionFailed else Inr s')"

text \<open>
  The second half of \<open>start\<close> (lines 487-517): the three phases, the signals, and then, on
  leaving the function, the destruction of \<open>files_parent\<close>, which calls \<open>deleteFiles\<close>.
\<close>

definition start_finish :: "Error \<Rightarrow> 'e device \<Rightarrow> bool \<Rightarrow> 'e session \<Rightarrow> abort + 'e session" where
  "start_finish E dev ok s =
     (if ok then deleteFiles E dev (emit finished (emit succeeded s))
      else deleteFiles E dev (emit finished (emit (failed (Some (error_type s))) s)))"

text \<open>The condition \<open>initialize(files) && writeFull(files) && verifyFull(files)\<close>.\<close>

definition start_tests :: "Error \<Rightarrow> 'e device \<Rightarrow> 'e session \<Rightarrow> abort + bool \<times> 'e session" where
  "start_tests E dev s =
     (case initialize E dev s of
        (False, s1) \<Rightarrow> Inr (False, s1)
      | (True, s1) \<Rightarrow>
          (case writeFull E dev s1 of
             Inl a \<Rightarrow> Inl a
           | Inr (False, s2) \<Rightarrow> Inr (False, s2)
           | Inr (True, s2) \<Rightarrow> verifyFull E dev s2))"

definition start_run :: "Error \<Rightarrow> 'e device \<Rightarrow> 'e session \<Rightarrow> abort + 'e session" where
  "start_run E dev s =
     (case start_tests E dev s of
        Inl a \<Rightarrow> Inl a
      | Inr (ok, s') \<Rightarrow> start_finish E dev ok s')"

definition start :: "Error \<Rightarrow> 'e device \<Rightarrow> 'e session \<Rightarrow> abort + 'e session" where
  "start E dev s =
     (if \<not> isValid dev s then Inr (emit finished (emit (failed None) s))
      else if \<not> (block_size_max s > 0 \<and> block_size_max s smod MB = 0) then Inl AssertionFailed
      else if \<not> (file_size_max s > 0 \<and> file_size_max s smod MB = 0) then Inl AssertionFailed
      else if \<not> file_size_max s > block_size_max s then Inl AssertionFailed
      else
        (let s1 = s\<lparr>bytes_total := bytesAvailable dev s, bytes_written := 0,
                      bytes_remaining := bytesAvailable dev s\<rparr>
         in if bytes_total s1 \<le> 0 then Inr (emit finished (emit (failed (Some (Full E))) s1))
            else
              (case generateTestPattern dev s1 of
                 Inl a \<Rightarrow> Inl a
               | Inr s2 \<Rightarrow>
                   if int (length (pattern s2)) \<noteq> block_size_max s2 then Inl AssertionFailed
                   else
                     (case start_calculate (mountpoint s2) (file_prefix' s2) (bytes_total s2)
                             (file_size_max s2) (block_size_max s2) of
                        Inl a \<Rightarrow> Inl a
                      | Inr fis \<Rightarrow> start_run E dev (s2\<lparr>file_infos := fis\<rparr>)))))"


section \<open>A simulated volume\<close>

text \<open>
  A concrete environment on which the model runs: files are byte strings with a position,
  kept by path. Three faults can be switched on: the write that is call number
  \<open>sim_short_write\<close> stores and reports one byte less, \<open>remove\<close> fails when
  \<open>sim_remove_fails\<close>, and \<open>cancel()\<close> is called once \<open>sim_cancel_after\<close> calls are done.
\<close>

record sim =
  sim_files :: "(string \<times> QByteArray \<times> nat) list"
  sim_calls :: nat
  sim_info :: QStorageInfo
  sim_short_write :: "nat option"
  sim_remove_fails :: bool
  sim_cancel_after :: "nat option"

fun sim_put :: "string \<Rightarrow> QByteArray \<times> nat \<Rightarrow> (string \<times> QByteArray \<times> nat) list \<Rightarrow> (string \<times> QByteArray \<times> nat) list" where
  "sim_put p v [] = [(p, v)]"
| "sim_put p v ((q, w) # fs) = (if q = p then (p, v) # fs else (q, w) # sim_put p v fs)"

definition sim_tick :: "sim \<Rightarrow> sim" where
  "sim_tick e = e\<lparr>sim_calls := Suc (sim_calls e)\<rparr>"

definition sim_store :: "QByteArray \<Rightarrow> nat \<Rightarrow> QByteArray \<Rightarrow> QByteArray" where
  "sim_store c pos d = take pos (c @ replicate (pos - length c) 0) @ d @ drop (pos + length d) c"

definition sim_open :: "string \<Rightarrow> sim \<Rightarrow> (bool \<times> bool) \<times> sim" where
  "sim_open p e =
     (case map_of (sim_files e) p of
        None \<Rightarrow> ((True, False), sim_tick (e\<lparr>sim_files := sim_put p ([], 0) (sim_files e)\<rparr>))
      | Some (c, pos) \<Rightarrow> ((True, False), sim_tick (e\<lparr>sim_files := sim_put p (c, 0) (sim_files e)\<rparr>)))"

definition sim_seek :: "string \<Rightarrow> int \<Rightarrow> sim \<Rightarrow> bool \<times> sim" where
  "sim_seek p pos e =
     (case map_of (sim_files e) p of
        None \<Rightarrow> (False, sim_tick e)
      | Some (c, _) \<Rightarrow>
          if pos < 0 then (False, sim_tick e)
          else (True, sim_tick (e\<lparr>sim_files := sim_put p (c, nat pos) (sim_files e)\<rparr>)))"

definition sim_write :: "string \<Rightarrow> QByteArray \<Rightarrow> sim \<Rightarrow> int \<times> sim" where
  "sim_write p d e =
     (case map_of (sim_files e) p of
        None \<Rightarrow> (- 1, sim_tick e)
      | Some (c, pos) \<Rightarrow>
          (let d' = (if sim_short_write e = Some (sim_calls e) then butlast d else d)
           in (int (length d'),
               sim_tick (e\<lparr>sim_files := sim_put p (sim_store c pos d', pos + length d') (sim_files e)\<rparr>))))"

definition sim_resize :: "string \<Rightarrow> int \<Rightarrow> sim \<Rightarrow> bool \<times> sim" where
  "sim_resize p n e =
     (case map_of (sim_files e) p of
        None \<Rightarrow> (False, sim_tick e)
      | Some (c, pos) \<Rightarrow>
          if n < 0 then (False, sim_tick e)
          else (True, sim_tick (e\<lparr>sim_files :=
                  sim_put p (take (nat n) c @ replicate (nat n - length c) 0, pos) (sim_files e)\<rparr>)))"

definition sim_putChar :: "string \<Rightarrow> byte \<Rightarrow> sim \<Rightarrow> bool \<times> sim" where
  "sim_putChar p b e =
     (case map_of (sim_files e) p of
        None \<Rightarrow> (False, sim_tick e)
      | Some (c, pos) \<Rightarrow>
          (True, sim_tick (e\<lparr>sim_files := sim_put p (sim_store c pos [b], Suc pos) (sim_files e)\<rparr>)))"

definition sim_getChar :: "string \<Rightarrow> sim \<Rightarrow> byte option \<times> sim" where
  "sim_getChar p e =
     (case map_of (sim_files e) p of
        None \<Rightarrow> (None, sim_tick e)
      | Some (c, pos) \<Rightarrow>
          if pos < length c
          then (Some (c ! pos), sim_tick (e\<lparr>sim_files := sim_put p (c, Suc pos) (sim_files e)\<rparr>))
          else (None, sim_tick e))"

definition sim_read :: "string \<Rightarrow> int \<Rightarrow> sim \<Rightarrow> QByteArray \<times> sim" where
  "sim_read p n e =
     (case map_of (sim_files e) p of
        None \<Rightarrow> ([], sim_tick e)
      | Some (c, pos) \<Rightarrow>
          (let d = take (nat n) (drop pos c)
           in (d, sim_tick (e\<lparr>sim_files := sim_put p (c, pos + length d) (sim_files e)\<rparr>))))"

definition sim_remove :: "string \<Rightarrow> sim \<Rightarrow> bool \<times> sim" where
  "sim_remove p e =
     (if sim_remove_fails e \<or> map_of (sim_files e) p = None then (False, sim_tick e)
      else (True, sim_tick (e\<lparr>sim_files := filter (\<lambda>(q, _). q \<noteq> p) (sim_files e)\<rparr>)))"

definition sim_entries :: "sim \<Rightarrow> string \<Rightarrow> (string \<times> bool) list" where
  "sim_entries e dir =
     map (\<lambda>(p, _). (drop (Suc (length dir)) p, False))
       (filter (\<lambda>(p, _). startsWith p (dir @ ''/'')) (sim_files e))"

definition sim_cancel :: "sim \<Rightarrow> bool" where
  "sim_cancel e = (case sim_cancel_after e of None \<Rightarrow> False | Some n \<Rightarrow> n \<le> sim_calls e)"

definition sim_dev :: "sim device" where
  "sim_dev =
     \<lparr> storage = (\<lambda>e mp. sim_info e),
       dir_entryInfoList = sim_entries,
       rand_seq = (\<lambda>e i. i),
       file_open = sim_open, file_seek = sim_seek, file_write = sim_write,
       file_resize = sim_resize, file_putChar = sim_putChar, file_getChar = sim_getChar,
       file_read = sim_read, file_fsync = (\<lambda>p e. ((), sim_tick e)), file_remove = sim_remove,
       cancel_requested = sim_cancel, USE_FSYNC = False \<rparr>"

text \<open>The flags as distinct bits, for the runs on the simulated volume.\<close>

definition sim_Error :: Error where
  "sim_Error = \<lparr> Unknown = 0, Aborted = 1, Full = 2, Create = 4, Permissions = 8,
                  Resize = 16, Write = 32, Verify = 64 \<rparr>"

definition sim_volume :: sim where
  "sim_volume = \<lparr> sim_files = [], sim_calls = 0,
       sim_info = \<lparr> si_isValid = True, si_isReady = True, si_rootPath = ''/mnt'',
                     si_bytesAvailable = 5 \<rparr>,
       sim_short_write = None, sim_remove_fails = False, sim_cancel_after = None \<rparr>"

text \<open>
  A tester on the simulated volume whose plan is small enough to run: one file of five
  bytes in two blocks, over a pattern of four bytes.
\<close>

definition sim_session :: "sim \<Rightarrow> sim session" where
  "sim_session e =
     \<lparr> block_size_max = 4, file_size_max = 8, file_prefix' = ''CAPACITYTESTER'',
       bytes_total = 5, bytes_written = 0, bytes_remaining = 5, canceled = False,
       error_type = 0, mountpoint = ''/mnt'', pattern = [7, 8, 9, 10],
       file_infos =
         [\<lparr> f_path = ''/mnt/CAPACITYTESTER0'', f_offset = 0, f_size = 5, f_end = 5,
             f_id = [48, 1],
             f_blocks =
               [\<lparr> b_rel_offset = 0, b_abs_offset = 0, b_size = 4, b_abs_end = 4,
                   b_id = [48, 58, 48, 1] \<rparr>,
                \<lparr> b_rel_offset = 4, b_abs_offset = 4, b_size = 1, b_abs_end = 5,
                   b_id = [48, 58, 49, 1] \<rparr>] \<rparr>],
       env = e, oplog = [], events = [], cancel_pos = None \<rparr>"

text \<open>A volume on which the test file exists and the second call, a write, is short.\<close>

definition sim_short :: sim where
  "sim_short = sim_volume\<lparr>sim_files := [(''/mnt/CAPACITYTESTER0'', replicate 5 0, 0)],
                          sim_short_write := Some 1\<rparr>"

text \<open>A volume on which \<open>cancel()\<close> is called when sixteen calls are done.\<close>

definition sim_canceled :: sim where
  "sim_canceled = sim_volume\<lparr>sim_cancel_after := Some 16\<rparr>"

text \<open>
  The names of the files on the simulated volume, and four more volumes: one on which
  \<open>remove\<close> always fails, one on which it fails and \<open>cancel()\<close> is called when sixteen
  calls are done, one that holds a file with the reserved prefix before the test, and one
  that reports \<open>2 ^ 60\<close> bytes available.
\<close>

definition sim_names :: "sim \<Rightarrow> string set" where
  "sim_names e = fst ` set (sim_files e)"


definition sim_canceled_stuck :: sim where
  "sim_canceled_stuck = sim_canceled\<lparr>sim_remove_fails := True\<rparr>"

definition sim_conflict :: sim where
  "sim_conflict = sim_volume\<lparr>sim_files := [(''/mnt/CAPACITYTESTER0'', [1, 2, 3], 0)]\<rparr>"

definition sim_huge :: sim where
  "sim_huge = sim_volume\<lparr>sim_info := (sim_info sim_volume)\<lparr>si_bytesAvailable := 2 ^ 60\<rparr>\<rparr>"

section \<open>Closed forms used in the proofs\<close>

text \<open>
  The number of pieces of size at most \<open>max_size\<close> that \<open>tot\<close> is cut into, and the
  block and file that the loops of \<open>start\<close> build at an index when no conversion wraps.
\<close>

definition count_of :: "int \<Rightarrow> int \<Rightarrow> int" where
  "count_of tot max_size =
     (if tot mod max_size \<noteq> 0 then tot div max_size + 1 else tot div max_size)"

definition block_at :: "int \<Rightarrow> int \<Rightarrow> int \<Rightarrow> int \<Rightarrow> int \<Rightarrow> int \<Rightarrow> BlockInfo" where
  "block_at bsm i offset bc lbs j =
     (let block_size = (if j = bc - 1 \<and> lbs \<noteq> 0
                           then lbs else bsm)
      in \<lparr> b_rel_offset = j * bsm,
           b_abs_offset = offset + j * bsm,
           b_size = block_size,
           b_abs_end = offset + (j * bsm + block_size),
           b_id = toUtf8 (number i @ '':'' @ number j) @ [1] \<rparr>)"

definition file_at :: "string \<Rightarrow> string \<Rightarrow> int \<Rightarrow> int \<Rightarrow> int \<Rightarrow> int \<Rightarrow> int \<Rightarrow> FileInfo" where
  "file_at dir pre fsm bsm fc lfs i =
     (let size = (if i = fc - 1 \<and> lfs \<noteq> 0
                  then lfs else fsm);
          pos = i * fsm;
          lbs = size mod bsm;
          bc = count_of size bsm
      in \<lparr> f_path = absoluteFilePath dir (pre @ number i),
           f_offset = pos, f_size = size, f_end = pos + size,
           f_id = toUtf8 (number i) @ [1],
           f_blocks = map (block_at bsm i pos bc lbs)
                        [0..bc - 1] \<rparr>)"

text \<open>What no phase changes: the plan, the pattern and the configuration.\<close>

definition same_plan :: "'e session \<Rightarrow> 'e session \<Rightarrow> bool" where
  "same_plan s s' \<longleftrightarrow>
     file_infos s' = file_infos s \<and> pattern s' = pattern s \<and>
     block_size_max s' = block_size_max s \<and> file_size_max s' = file_size_max s \<and>
     file_prefix' s' = file_prefix' s \<and> mountpoint s' = mountpoint s \<and>
     bytes_total s' = bytes_total s"

text \<open>
  One library call: \<open>env_step dev x e x'\<close> says that the call logged as \<open>e\<close> takes the
  environment from \<open>x\<close> to \<open>x'\<close>, and \<open>stepped E dev s e s'\<close> that \<open>s'\<close> is \<open>s\<close> after
  that call. \<open>has_flag\<close> tests a bit of the error mask, and
  \<open>write_failed\<close> picks the log entries of a failed seek and of a write that reported another
  count than the length of its data.
\<close>

fun env_step :: "'e device \<Rightarrow> 'e \<Rightarrow> io \<Rightarrow> 'e \<Rightarrow> bool" where
  "env_step dev x (QOpen p ok perm) x' \<longleftrightarrow> file_open dev p x = ((ok, perm), x')"
| "env_step dev x (QSeek p pos r) x' \<longleftrightarrow> file_seek dev p pos x = (r, x')"
| "env_step dev x (QWrite p d n) x' \<longleftrightarrow> file_write dev p d x = (n, x')"
| "env_step dev x (QResize p n r) x' \<longleftrightarrow> file_resize dev p n x = (r, x')"
| "env_step dev x (QPutChar p b r) x' \<longleftrightarrow> file_putChar dev p b x = (r, x')"
| "env_step dev x (QGetChar p c) x' \<longleftrightarrow> file_getChar dev p x = (c, x')"
| "env_step dev x (QRead p n d) x' \<longleftrightarrow> file_read dev p n x = (d, x')"
| "env_step dev x (QFsync p) x' \<longleftrightarrow> snd (file_fsync dev p x) = x'"
| "env_step dev x (QRemove p r) x' \<longleftrightarrow> file_remove dev p x = (r, x')"

definition stepped :: "Error \<Rightarrow> 'e device \<Rightarrow> 'e session \<Rightarrow> io \<Rightarrow> 'e session \<Rightarrow> bool" where
  "stepped E dev s e s' \<longleftrightarrow>
     (\<exists>e'. env_step dev (env s) e e' \<and> s' = deliver E dev (s\<lparr>env := e', oplog := oplog s @ [e]\<rparr>))"

definition has_flag :: "int \<Rightarrow> 'e session \<Rightarrow> bool" where
  "has_flag x s \<longleftrightarrow> error_type s AND x = x"

definition write_failed :: "io \<Rightarrow> bool" where
  "write_failed e = (case e of QSeek p pos ok \<Rightarrow> \<not> ok | QWrite p d n \<Rightarrow> n \<noteq> int (length d) | _ \<Rightarrow> False)"

text \<open>
  The states of \<open>writeFull\<close>: \<open>writer_good s s'\<close> when no seek or write has failed since
  \<open>s\<close>; \<open>block_failure s i j e\<close> when \<open>e\<close> is the failed seek or the short write of block
  \<open>j\<close> of file \<open>i\<close>; \<open>writer_post\<close> is what holds when the writer returns.
\<close>

definition writer_good :: "'e session \<Rightarrow> 'e session \<Rightarrow> bool" where
  "writer_good s s' \<longleftrightarrow>
     same_plan s s' \<and>
     (\<exists>new evs. oplog s' = oplog s @ new \<and> events s' = events s @ evs \<and>
        (\<forall>e \<in> set new. \<not> write_failed e))"

definition block_failure :: "'e session \<Rightarrow> nat \<Rightarrow> nat \<Rightarrow> io \<Rightarrow> bool" where
  "block_failure s i j e \<longleftrightarrow>
     i < length (file_infos s) \<and> j < length (f_blocks (file_infos s ! i)) \<and>
     (e = QSeek (f_path (file_infos s ! i)) (b_rel_offset (f_blocks (file_infos s ! i) ! j)) False \<or>
      (\<exists>d m. blockData s (int i) (int j) = Inr d \<and> m \<noteq> b_size (f_blocks (file_infos s ! i) ! j) \<and>
          e = QWrite (f_path (file_infos s ! i)) d m))"

definition writer_post :: "Error \<Rightarrow> 'e device \<Rightarrow> 'e session \<Rightarrow> bool \<Rightarrow> 'e session \<Rightarrow> bool" where
  "writer_post E dev s ok s' \<longleftrightarrow>
     writer_good s s' \<or>
     (\<not> ok \<and>
      (\<exists>s1 s2 e i j. writer_good s s1 \<and> stepped E dev s1 e s2 \<and> block_failure s i j e \<and>
          s' = emit (writeFailed (b_abs_offset (f_blocks (file_infos s ! i) ! j))
                      (b_size (f_blocks (file_infos s ! i) ! j)))
                 (add_error (Write E) s2)))"

text \<open>
  Cancellation: \<open>writes_after_cancel\<close> counts the writes logged after \<open>cancel()\<close> ran
  first; \<open>cancel_wf\<close> ties the flag, the error mask and the recorded position together;
  \<open>reaches\<close> is any sequence of library calls, signals and error flags; \<open>cancel_post\<close> is
  what holds between two blocks of the writer, for calls counted from \<open>L\<close> on.
\<close>

definition is_write :: "io \<Rightarrow> bool" where
  "is_write e = (case e of QWrite p d n \<Rightarrow> True | _ \<Rightarrow> False)"

definition writes_after_cancel :: "'e session \<Rightarrow> nat" where
  "writes_after_cancel s =
     (case cancel_pos s of None \<Rightarrow> 0 | Some n \<Rightarrow> length (filter is_write (drop n (oplog s))))"

definition cancel_wf :: "Error \<Rightarrow> 'e session \<Rightarrow> bool" where
  "cancel_wf E s \<longleftrightarrow>
     (canceled s \<longleftrightarrow> cancel_pos s \<noteq> None) \<and>
     (canceled s \<longrightarrow> has_flag (Aborted E) s) \<and>
     (\<forall>n. cancel_pos s = Some n \<longrightarrow> n \<le> length (oplog s))"

inductive reaches :: "Error \<Rightarrow> 'e device \<Rightarrow> 'e session \<Rightarrow> 'e session \<Rightarrow> bool"
  for E :: Error and dev :: "'e device" and s :: "'e session" where
    reaches_refl: "reaches E dev s s"
  | reaches_step: "reaches E dev s s1 \<Longrightarrow> stepped E dev s1 e s2 \<Longrightarrow> reaches E dev s s2"
  | reaches_emit: "reaches E dev s s1 \<Longrightarrow> reaches E dev s (emit sig s1)"
  | reaches_error: "reaches E dev s s1 \<Longrightarrow> reaches E dev s (add_error x s1)"

definition cancel_post :: "Error \<Rightarrow> nat \<Rightarrow> bool \<Rightarrow> 'e session \<Rightarrow> bool" where
  "cancel_post E L ok s \<longleftrightarrow>
     cancel_wf E s \<and> L \<le> length (oplog s) \<and> (\<forall>n. cancel_pos s = Some n \<longrightarrow> L < n) \<and>
     writes_after_cancel s \<le> 1 \<and> (ok \<longrightarrow> writes_after_cancel s = 0)"

text \<open>
  The calls that creating a file may log: any \<open>putChar\<close> among them writes \<open>byte_fe\<close> to
  the file \<open>p\<close>, and none is a \<open>getChar\<close>.
\<close>

definition trailer_call :: "string \<Rightarrow> io \<Rightarrow> bool" where
  "trailer_call p e =
     (case e of QPutChar q b r \<Rightarrow> q = p \<and> b = byte_fe | QGetChar q c \<Rightarrow> False | _ \<Rightarrow> True)"

text \<open>
  A plan on which \<open>blockData\<close> passes its assertions (\<open>planned\<close>), the writes and reads
  that carry the data of a block of the plan (\<open>block_call\<close>), and a run all of whose logged
  calls satisfy a predicate (\<open>logged\<close>).
\<close>

definition planned :: "'e session \<Rightarrow> bool" where
  "planned s \<longleftrightarrow>
     (\<forall>f \<in> set (file_infos s). \<forall>b \<in> set (f_blocks f).
        0 < b_size b \<and> b_size b \<le> int (length (pattern s)))"

definition block_call :: "'e session \<Rightarrow> io \<Rightarrow> bool" where
  "block_call s e =
     (case e of
        QWrite p d n \<Rightarrow>
          (\<exists>i j. i < length (file_infos s) \<and> j < length (f_blocks (file_infos s ! i)) \<and>
             p = f_path (file_infos s ! i) \<and> blockData s (int i) (int j) = Inr d)
      | QRead p n d \<Rightarrow>
          (\<exists>i j. i < length (file_infos s) \<and> j < length (f_blocks (file_infos s ! i)) \<and>
             p = f_path (file_infos s ! i) \<and> n = b_size (f_blocks (file_infos s ! i) ! j) \<and>
             blockData s (int i) (int j) = Inr d)
      | _ \<Rightarrow> True)"

definition logged :: "(io \<Rightarrow> bool) \<Rightarrow> 'e session \<Rightarrow> 'e session \<Rightarrow> bool" where
  "logged P s s' \<longleftrightarrow> same_plan s s' \<and> (\<exists>new. oplog s' = oplog s @ new \<and> (\<forall>e \<in> set new. P e))"

text \<open>
  The path a logged call was made on; a run all of whose calls are made on files of a set
  and none of which is a \<open>remove\<close> (\<open>walks\<close> with \<open>on_files\<close>); the paths of the plan;
  and a device whose file names are \<open>tidy\<close>: seen through \<open>names\<close>, only \<open>open\<close> adds
  a name (the one opened), and a \<open>remove\<close> that returns \<open>true\<close> deletes the name removed.
\<close>

definition call_path :: "io \<Rightarrow> string" where
  "call_path e =
     (case e of QOpen p ok perm \<Rightarrow> p | QSeek p pos r \<Rightarrow> p | QWrite p d n \<Rightarrow> p
      | QResize p n r \<Rightarrow> p | QPutChar p b r \<Rightarrow> p | QGetChar p c \<Rightarrow> p | QRead p n d \<Rightarrow> p
      | QFsync p \<Rightarrow> p | QRemove p r \<Rightarrow> p)"

definition is_remove :: "io \<Rightarrow> bool" where
  "is_remove e = (case e of QRemove p r \<Rightarrow> True | _ \<Rightarrow> False)"

definition on_files :: "string set \<Rightarrow> io \<Rightarrow> bool" where
  "on_files S e \<longleftrightarrow> call_path e \<in> S \<and> \<not> is_remove e"

definition planned_paths :: "'e session \<Rightarrow> string set" where
  "planned_paths s = f_path ` set (file_infos s)"

inductive walks :: "Error \<Rightarrow> 'e device \<Rightarrow> (io \<Rightarrow> bool) \<Rightarrow> 'e session \<Rightarrow> 'e session \<Rightarrow> bool"
  for E :: Error and dev :: "'e device" and P :: "io \<Rightarrow> bool" and s :: "'e session" where
    walks_refl: "walks E dev P s s"
  | walks_step: "walks E dev P s s1 \<Longrightarrow> stepped E dev s1 e s2 \<Longrightarrow> P e \<Longrightarrow> walks E dev P s s2"
  | walks_emit: "walks E dev P s s1 \<Longrightarrow> walks E dev P s (emit sig s1)"
  | walks_error: "walks E dev P s s1 \<Longrightarrow> walks E dev P s (add_error x s1)"

definition tidy :: "'e device \<Rightarrow> ('e \<Rightarrow> string set) \<Rightarrow> bool" where
  "tidy dev names \<longleftrightarrow>
     (\<forall>x e x'. env_step dev x e x' \<longrightarrow>
        (case e of
           QOpen p ok perm \<Rightarrow> names x' \<subseteq> insert p (names x)
         | QRemove p r \<Rightarrow> names x' \<subseteq> (if r then names x - {p} else names x)
         | _ \<Rightarrow> names x' \<subseteq> names x))"

text \<open>A later state of a run: signals and logged calls are only appended.\<close>

definition grows :: "'e session \<Rightarrow> 'e session \<Rightarrow> bool" where
  "grows x y \<longleftrightarrow> (\<exists>ev. events y = events x @ ev) \<and> (\<exists>new. oplog y = oplog x @ new)"

text \<open>
  The calls \<open>writeFull\<close> and \<open>verifyFull\<close> make when nothing fails, block by block
  (\<open>write_calls\<close>, \<open>verify_calls\<close>) and for the whole plan, with the data \<open>blockData\<close>
  gives for each block; \<open>call_args\<close> forgets the value a call returned, and
  \<open>prefix_calls new plan\<close> says that \<open>new\<close> is, call for call and argument for argument,
  a prefix of \<open>plan\<close>.
\<close>

fun call_args :: "io \<Rightarrow> io" where
  "call_args (QOpen p ok perm) = QOpen p True False"
| "call_args (QSeek p pos r) = QSeek p pos True"
| "call_args (QWrite p d n) = QWrite p d 0"
| "call_args (QResize p n r) = QResize p n True"
| "call_args (QPutChar p b r) = QPutChar p b True"
| "call_args (QGetChar p c) = QGetChar p None"
| "call_args (QRead p n d) = QRead p n []"
| "call_args (QFsync p) = QFsync p"
| "call_args (QRemove p r) = QRemove p True"

definition prefix_calls :: "io list \<Rightarrow> io list \<Rightarrow> bool" where
  "prefix_calls new plan \<longleftrightarrow>
     length new \<le> length plan \<and> map call_args new = take (length new) (map call_args plan)"

definition fsync_calls :: "'e device \<Rightarrow> string \<Rightarrow> io list" where
  "fsync_calls dev p = (if USE_FSYNC dev then [QFsync p] else [])"

definition block_bytes :: "'e session \<Rightarrow> nat \<Rightarrow> nat \<Rightarrow> QByteArray" where
  "block_bytes s i j = (case blockData s (int i) (int j) of Inl a \<Rightarrow> [] | Inr d \<Rightarrow> d)"

definition write_calls :: "'e device \<Rightarrow> 'e session \<Rightarrow> nat \<Rightarrow> nat \<Rightarrow> io list" where
  "write_calls dev s i j =
     (let f = file_infos s ! i; b = f_blocks f ! j
      in [QSeek (f_path f) (b_rel_offset b) True, QWrite (f_path f) (block_bytes s i j) (b_size b)] @
         fsync_calls dev (f_path f))"

definition verify_calls :: "'e session \<Rightarrow> nat \<Rightarrow> nat \<Rightarrow> io list" where
  "verify_calls s i j =
     (let f = file_infos s ! i; b = f_blocks f ! j
      in [QSeek (f_path f) (b_rel_offset b) True, QRead (f_path f) (b_size b) (block_bytes s i j)])"

definition writeFull_calls :: "'e device \<Rightarrow> 'e session \<Rightarrow> io list" where
  "writeFull_calls dev s =
     concat (map (\<lambda>i. fsync_calls dev (f_path (file_infos s ! i)) @
                       concat (map (write_calls dev s i) [0..<length (f_blocks (file_infos s ! i))]))
               [0..<length (file_infos s)])"

definition verifyFull_calls :: "'e device \<Rightarrow> 'e session \<Rightarrow> io list" where
  "verifyFull_calls dev s =
     concat (map (\<lambda>i. fsync_calls dev (f_path (file_infos s ! i)) @
                       concat (map (verify_calls s i) [0..<length (f_blocks (file_infos s ! i))]))
               [0..<length (file_infos s)])"

section \<open>The plan (C1)\<close>

lemma to_int_id: "- (2 ^ 31) \<le> x \<Longrightarrow> x < 2 ^ 31 \<Longrightarrow> to_int x = x"
  by (simp add: to_int_def)

lemma to_qint64_id: "- (2 ^ 63) \<le> x \<Longrightarrow> x < 2 ^ 63 \<Longrightarrow> to_qint64 x = x"
  by (simp add: to_qint64_def)

lemma sdiv_nonneg: "0 \<le> a \<Longrightarrow> 0 < b \<Longrightarrow> a sdiv b = a div (b::int)"
  by (simp add: signed_divide_int_def sgn_if)

lemma smod_nonneg: "0 \<le> a \<Longrightarrow> 0 < b \<Longrightarrow> a smod b = a mod (b::int)"
  by (simp add: signed_modulo_int_def sgn_if)

lemma mult_lt_2_62:
  assumes "0 \<le> a" "a < 2 ^ 31" "0 \<le> b" "b < 2 ^ 31"
  shows "a * b + 2 ^ 31 < (2 ^ 62 :: int)"
proof -
  have "a * b \<le> (2 ^ 31 - 1) * (2 ^ 31 - 1)"
    using assms by (intro mult_mono) auto
  then show ?thesis by simp
qed

lemma start_blocks_closed:
  assumes "0 < bsm" "bsm < 2 ^ 31" "bc < 2 ^ 31" "0 \<le> lbs" "lbs < 2 ^ 31"
    "0 \<le> off" "off < 2 ^ 62" "0 \<le> j"
  shows "start_blocks bsm i off bc lbs j acc = Inr (acc @ map (block_at bsm i off bc lbs) [j..bc - 1])"
  using assms(8)
proof (induction "nat (bc - j)" arbitrary: j acc)
  case 0
  then show ?case by (subst start_blocks.simps) simp
next
  case (Suc n)
  then have True: "j < bc" by linarith
  have bc1: "to_int (bc - 1) = bc - 1"
    using True Suc.prems assms by (intro to_int_id) auto
  have bsm_id: "to_int bsm = bsm"
    using assms by (intro to_int_id) auto
  define bsz where "bsz = (if j = bc - 1 \<and> lbs \<noteq> 0 then lbs else bsm)"
  have bsz_pos: "0 < bsz" and bsz_lt: "bsz < 2 ^ 31"
    using assms by (auto simp: bsz_def)
  define p where "p = j * bsm"
  have p0: "0 \<le> p" and p1: "p + 2 ^ 31 < 2 ^ 62"
    using assms Suc.prems True mult_lt_2_62[of j bsm] by (auto simp: p_def)
  have pos_id: "to_qint64 p = p"
    using p0 p1 by (simp add: to_qint64_id)
  have end_id: "to_qint64 (p + bsz) = p + bsz"
    using p0 p1 bsz_pos bsz_lt by (simp add: to_qint64_id)
  have abs_id: "to_qint64 (off + p) = off + p"
    using p0 p1 assms by (simp add: to_qint64_id)
  have absend_id: "to_qint64 (off + (p + bsz)) = off + (p + bsz)"
    using p0 p1 bsz_pos bsz_lt assms by (simp add: to_qint64_id)
  have step: "start_blocks bsm i off bc lbs j acc =
      start_blocks bsm i off bc lbs (j + 1) (acc @ [block_at bsm i off bc lbs j])"
    apply (subst start_blocks.simps)
    apply (simp only: bc1 bsm_id Let_def)
    apply (fold p_def bsz_def)
    using True bsz_pos p0
    apply (simp only: pos_id Let_def if_True)
    apply (simp only: end_id abs_id absend_id block_at_def Let_def)
    apply (simp add: p_def bsz_def)
    done
  have IH: "start_blocks bsm i off bc lbs (j + 1) (acc @ [block_at bsm i off bc lbs j]) =
      Inr ((acc @ [block_at bsm i off bc lbs j]) @ map (block_at bsm i off bc lbs) [j + 1..bc - 1])"
    using Suc.hyps(2) Suc.prems by (intro Suc.hyps(1)) auto
  show ?case
    using True by (simp add: step IH upto_rec1[of j "bc - 1"])
qed


lemma start_files_closed:
  assumes "0 < bsm" "bsm < 2 ^ 31" "0 < fsm" "fsm < 2 ^ 31" "fc < 2 ^ 31"
    "0 \<le> lfs" "lfs < 2 ^ 31" "0 \<le> i"
  shows "start_files dir pre fsm bsm fc lfs i acc =
           Inr (acc @ map (file_at dir pre fsm bsm fc lfs) [i..fc - 1])"
  using assms(8)
proof (induction "nat (fc - i)" arbitrary: i acc)
  case 0
  then show ?case by (subst start_files.simps) simp
next
  case (Suc n)
  then have True: "i < fc" by linarith
  have fc1: "to_int (fc - 1) = fc - 1"
    using True Suc.prems assms by (intro to_int_id) auto
  have fsm_id: "to_int fsm = fsm"
    using assms by (intro to_int_id) auto
  define sz where "sz = (if i = fc - 1 \<and> lfs \<noteq> 0 then lfs else fsm)"
  have sz_pos: "0 < sz" and sz_lt: "sz < 2 ^ 31"
    using assms by (auto simp: sz_def)
  define p where "p = i * fsm"
  have p0: "0 \<le> p" and p1: "p + 2 ^ 31 < 2 ^ 62"
    using assms Suc.prems True mult_lt_2_62[of i fsm] by (auto simp: p_def)
  have pos_id: "to_qint64 p = p"
    using p0 p1 by (simp add: to_qint64_id)
  have end_id: "to_qint64 (p + sz) = p + sz"
    using p0 p1 sz_pos sz_lt by (simp add: to_qint64_id)
  define lbs where "lbs = sz mod bsm"
  define q where "q = sz div bsm"
  have q0: "0 \<le> q"
    using sz_pos assms(1) by (simp add: q_def pos_imp_zdiv_nonneg_iff)
  have lbs0: "0 \<le> lbs" and lbs1: "lbs < bsm"
    using assms(1) by (auto simp: lbs_def)
  have decomp: "sz = bsm * q + lbs"
    by (simp add: q_def lbs_def)
  have qq: "q \<le> bsm * q"
    using q0 assms(1) by (simp add: mult_le_cancel_right1)
  have qle: "q \<le> sz"
    using decomp qq lbs0 by linarith
  have sdiv_id: "to_int (sz sdiv bsm) = q"
    using sz_pos assms(1) q0 qle sz_lt by (simp add: sdiv_nonneg q_def[symmetric] to_int_id)
  have smod_id: "to_int (sz smod bsm) = lbs"
    using sz_pos assms(1,2) lbs0 lbs1 by (simp add: smod_nonneg lbs_def[symmetric] to_int_id)
  have q_lt: "lbs \<noteq> 0 \<Longrightarrow> q < sz"
  proof -
    assume "lbs \<noteq> 0"
    then have "0 < lbs" using lbs0 by simp
    then show ?thesis using decomp qq by linarith
  qed
  define bc where "bc = (if lbs \<noteq> 0 then q + 1 else q)"
  have bc0: "0 \<le> bc" and bc_lt: "bc < 2 ^ 31"
    using q0 qle q_lt sz_lt by (auto simp: bc_def)
  have bc_id: "(if lbs \<noteq> 0 then to_int (q + 1) else q) = bc"
    using q0 q_lt sz_lt by (auto simp: bc_def to_int_id)
  have blocks: "start_blocks bsm i p bc lbs 0 [] = Inr (map (block_at bsm i p bc lbs) [0..bc - 1])"
    using start_blocks_closed[of bsm bc lbs p 0 i "[]"] assms(1,2) bc_lt lbs0 lbs1 p0 p1
    by simp
  have len: "int (length (map (block_at bsm i p bc lbs) [0..bc - 1])) = bc"
    using bc0 by simp
  have fa: "file_at dir pre fsm bsm fc lfs i =
      \<lparr> f_path = absoluteFilePath dir (pre @ number i), f_offset = p, f_size = sz,
        f_end = p + sz, f_id = toUtf8 (number i) @ [1],
        f_blocks = map (block_at bsm i p bc lbs) [0..bc - 1] \<rparr>"
    by (simp add: file_at_def Let_def sz_def p_def lbs_def bc_def q_def count_of_def)
  have step: "start_files dir pre fsm bsm fc lfs i acc =
      start_files dir pre fsm bsm fc lfs (i + 1) (acc @ [file_at dir pre fsm bsm fc lfs i])"
    apply (subst start_files.simps)
    apply (simp only: fc1 fsm_id Let_def)
    apply (fold p_def sz_def)
    using True sz_pos p0
    apply (simp only: pos_id end_id sdiv_id smod_id bc_id if_True not_True_eq_False if_False
            simp_thms blocks sum.case len fa)
    done
  have IH: "start_files dir pre fsm bsm fc lfs (i + 1) (acc @ [file_at dir pre fsm bsm fc lfs i]) =
      Inr ((acc @ [file_at dir pre fsm bsm fc lfs i]) @ map (file_at dir pre fsm bsm fc lfs) [i + 1..fc - 1])"
    using Suc.hyps(2) Suc.prems by (intro Suc.hyps(1)) auto
  show ?case
    using True by (simp add: step IH upto_rec1[of i "fc - 1"])
qed


lemma start_calculate_closed:
  assumes "0 < bytes" "0 < bsm" "bsm < 2 ^ 31" "0 < fsm" "fsm < 2 ^ 31" "bytes \<le> (2 ^ 31 - 1) * fsm"
  shows "start_calculate dir pre bytes fsm bsm =
           Inr (map (file_at dir pre fsm bsm (count_of bytes fsm) (bytes mod fsm))
                  [0..count_of bytes fsm - 1])"
proof -
  define q where "q = bytes div fsm"
  define r where "r = bytes mod fsm"
  have r0: "0 \<le> r" and r1: "r < fsm"
    using assms(4) by (auto simp: r_def)
  have decomp: "bytes = q * fsm + r"
    by (simp add: q_def r_def)
  have q0: "0 \<le> q"
    using assms(1,4) by (simp add: q_def pos_imp_zdiv_nonneg_iff)
  have "q * fsm \<le> (2 ^ 31 - 1) * fsm"
    using decomp r0 assms(6) by linarith
  then have qle: "q \<le> 2 ^ 31 - 1"
    using assms(4) by (simp add: mult_le_cancel_right)
  have q_lt: "q < 2 ^ 31 - 1" if "r \<noteq> 0"
  proof -
    have "q * fsm < (2 ^ 31 - 1) * fsm"
      using decomp r0 that assms(6) by linarith
    then show ?thesis using assms(4) by (simp add: mult_less_cancel_right)
  qed
  have sdiv_id: "to_int (bytes sdiv fsm) = q"
    using assms(1,4) q0 qle by (simp add: sdiv_nonneg q_def[symmetric] to_int_id)
  have smod_id: "to_int (bytes smod fsm) = r"
    using assms(1,4,5) r0 r1 by (simp add: smod_nonneg r_def[symmetric] to_int_id)
  define fc where "fc = (if r \<noteq> 0 then q + 1 else q)"
  have fc_id: "(if r \<noteq> 0 then to_int (q + 1) else q) = fc"
    using q0 q_lt by (auto simp: fc_def to_int_id)
  have fc_lt: "fc < 2 ^ 31"
    using qle q_lt by (auto simp: fc_def)
  have fc_eq: "count_of bytes fsm = fc"
    by (simp add: count_of_def fc_def q_def r_def)
  have "start_calculate dir pre bytes fsm bsm = start_files dir pre fsm bsm fc r 0 []"
    unfolding start_calculate_def by (simp only: sdiv_id smod_id fc_id Let_def)
  also have "\<dots> = Inr ([] @ map (file_at dir pre fsm bsm fc r) [0..fc - 1])"
    using assms fc_lt r0 r1 by (intro start_files_closed) auto
  finally show ?thesis by (simp add: fc_eq r_def)
qed

lemma sum_list_const: "(\<And>x. x \<in> set xs \<Longrightarrow> f x = (m::int)) \<Longrightarrow> sum_list (map f xs) = int (length xs) * m"
  by (induction xs) (auto simp: algebra_simps)

lemma sum_last_special:
  assumes "0 < tot" "0 < m"
  shows "sum_list (map (\<lambda>k. if k = count_of tot m - 1 \<and> tot mod m \<noteq> 0 then tot mod m else m)
            [0..count_of tot m - 1]) = tot"
proof -
  define n where "n = count_of tot m"
  define l where "l = tot mod m"
  have q0: "0 \<le> tot div m"
    using assms by (simp add: pos_imp_zdiv_nonneg_iff)
  have decomp: "tot = (tot div m) * m + l" by (simp add: l_def)
  show ?thesis
  proof (cases "l = 0")
    case True
    then have n: "n = tot div m" by (simp add: n_def count_of_def l_def)
    have "sum_list (map (\<lambda>k. if k = n - 1 \<and> l \<noteq> 0 then l else m) [0..n - 1]) = int (length [0..n - 1]) * m"
      using True by (intro sum_list_const) auto
    also have "\<dots> = n * m" using q0 n by simp
    finally have "sum_list (map (\<lambda>k. if k = n - 1 \<and> l \<noteq> 0 then l else m) [0..n - 1]) = tot"
      using decomp True n by simp
    then show ?thesis unfolding n_def l_def .
  next
    case False
    then have n: "n = tot div m + 1" by (simp add: n_def count_of_def l_def)
    have split: "[0..n - 1] = [0..n - 1 - 1] @ [n - 1]"
      using q0 n by (intro upto_rec2) auto
    have "sum_list (map (\<lambda>k. if k = n - 1 \<and> l \<noteq> 0 then l else m) [0..n - 1 - 1]) = int (length [0..n - 1 - 1]) * m"
      by (intro sum_list_const) auto
    also have "\<dots> = (n - 1) * m" using q0 n by simp
    finally have "sum_list (map (\<lambda>k. if k = n - 1 \<and> l \<noteq> 0 then l else m) [0..n - 1]) = (n - 1) * m + l"
      using False by (subst split) simp
    then have "sum_list (map (\<lambda>k. if k = n - 1 \<and> l \<noteq> 0 then l else m) [0..n - 1]) = tot"
      using decomp n by simp
    then show ?thesis unfolding n_def l_def .
  qed
qed


lemma block_at_sizes:
  assumes "0 < sz" "0 < bsm"
  shows "sum_list (map b_size (map (block_at bsm i off (count_of sz bsm) (sz mod bsm))
            [0..count_of sz bsm - 1])) = sz"
proof -
  have A: "map b_size (map (block_at bsm i off (count_of sz bsm) (sz mod bsm)) [0..count_of sz bsm - 1])
      = map (\<lambda>k. if k = count_of sz bsm - 1 \<and> sz mod bsm \<noteq> 0 then sz mod bsm else bsm)
          [0..count_of sz bsm - 1]"
    by (simp add: block_at_def Let_def)
  show ?thesis unfolding A by (rule sum_last_special[OF assms])
qed

lemma count_of_nonneg: "0 < tot \<Longrightarrow> 0 < m \<Longrightarrow> 0 \<le> count_of tot m"
  by (simp add: count_of_def pos_imp_zdiv_nonneg_iff)

lemma mod_pos_if_nonzero: "0 < (m::int) \<Longrightarrow> tot mod m \<noteq> 0 \<Longrightarrow> 0 < tot mod m"
  using pos_mod_sign[of m tot] by linarith

text \<open>
  Within the range of \<open>int\<close>. When the file size fits an \<open>int\<close> and the number of files does
  too, the block of \<open>start\<close> that computes the plan (\<open>start_calculate\<close>) returns a plan
  that partitions the available bytes: the file sizes sum to \<open>bytes_available\<close>; every
  file but the last has size \<open>file_size_max\<close>; file \<open>i\<close> starts at \<open>i * file_size_max\<close>
  and ends at its offset plus its size; in every file the block sizes sum to the file's
  size, every block but the last has size \<open>block_size_max\<close>, and block \<open>j\<close> starts at
  \<open>j * block_size_max\<close> within the file.
\<close>

theorem start_calculate_partition:
  assumes "0 < bytes_available" "0 < bsm" "bsm < fsm"
    "fsm < 2 ^ 31" "bytes_available \<le> (2 ^ 31 - 1) * fsm"
  shows "\<exists>files. start_calculate dir pre bytes_available fsm bsm = Inr files \<and>
     sum_list (map f_size files) = bytes_available \<and>
     (\<forall>i < length files.
        f_offset (files ! i) = int i * fsm \<and>
        f_end (files ! i) = f_offset (files ! i) + f_size (files ! i) \<and>
        0 < f_size (files ! i) \<and> f_size (files ! i) \<le> fsm \<and>
        (Suc i < length files \<longrightarrow> f_size (files ! i) = fsm) \<and>
        sum_list (map b_size (f_blocks (files ! i))) = f_size (files ! i) \<and>
        (\<forall>j < length (f_blocks (files ! i)).
           b_rel_offset (f_blocks (files ! i) ! j) = int j * bsm \<and>
           b_abs_offset (f_blocks (files ! i) ! j) = f_offset (files ! i) + int j * bsm \<and>
           b_abs_end (f_blocks (files ! i) ! j) =
             b_abs_offset (f_blocks (files ! i) ! j) + b_size (f_blocks (files ! i) ! j) \<and>
           0 < b_size (f_blocks (files ! i) ! j) \<and>
           b_size (f_blocks (files ! i) ! j) \<le> bsm \<and>
           (Suc j < length (f_blocks (files ! i)) \<longrightarrow>
              b_size (f_blocks (files ! i) ! j) = bsm)))"
proof -
  define fc where "fc = count_of bytes_available fsm"
  define lfs where "lfs = bytes_available mod fsm"
  define files where "files = map (file_at dir pre fsm bsm fc lfs) [0..fc - 1]"
  have fsm_pos: "0 < fsm" using assms by linarith
  have bsm_lt: "bsm < 2 ^ 31" using assms by linarith
  have eq: "start_calculate dir pre bytes_available fsm bsm = Inr files"
    unfolding files_def fc_def lfs_def
    using assms fsm_pos bsm_lt by (intro start_calculate_closed) auto
  have fc0: "0 \<le> fc"
    unfolding fc_def using assms(1) fsm_pos by (rule count_of_nonneg)
  have len: "length files = nat fc"
    using fc0 by (simp add: files_def)
  have nth: "files ! i = file_at dir pre fsm bsm fc lfs (int i)"
    if "i < length files" for i
    using that len fc0 by (simp add: files_def)
  have lfs_pos: "lfs \<noteq> 0 \<Longrightarrow> 0 < lfs" and lfs_lt: "lfs < fsm"
    using fsm_pos mod_pos_if_nonzero[of fsm bytes_available] by (auto simp: lfs_def)
  have sum: "sum_list (map f_size files) = bytes_available"
  proof -
    have A: "map f_size files = map (\<lambda>k. if k = fc - 1 \<and> lfs \<noteq> 0 then lfs else fsm) [0..fc - 1]"
      by (simp add: files_def file_at_def Let_def)
    show ?thesis
      unfolding A fc_def lfs_def by (rule sum_last_special[OF assms(1) fsm_pos])
  qed
  have per_file: "f_offset (files ! i) = int i * fsm \<and>
        f_end (files ! i) = f_offset (files ! i) + f_size (files ! i) \<and>
        0 < f_size (files ! i) \<and> f_size (files ! i) \<le> fsm \<and>
        (Suc i < length files \<longrightarrow> f_size (files ! i) = fsm) \<and>
        sum_list (map b_size (f_blocks (files ! i))) = f_size (files ! i) \<and>
        (\<forall>j < length (f_blocks (files ! i)).
           b_rel_offset (f_blocks (files ! i) ! j) = int j * bsm \<and>
           b_abs_offset (f_blocks (files ! i) ! j) = f_offset (files ! i) + int j * bsm \<and>
           b_abs_end (f_blocks (files ! i) ! j) =
             b_abs_offset (f_blocks (files ! i) ! j) + b_size (f_blocks (files ! i) ! j) \<and>
           0 < b_size (f_blocks (files ! i) ! j) \<and>
           b_size (f_blocks (files ! i) ! j) \<le> bsm \<and>
           (Suc j < length (f_blocks (files ! i)) \<longrightarrow>
              b_size (f_blocks (files ! i) ! j) = bsm))"
    if i: "i < length files" for i
  proof -
    define sz where "sz = (if int i = fc - 1 \<and> lfs \<noteq> 0 then lfs else fsm)"
    define bc where "bc = count_of sz bsm"
    define lbs where "lbs = sz mod bsm"
    define blocks where "blocks = map (block_at bsm (int i) (int i * fsm) bc lbs) [0..bc - 1]"
    have fi: "files ! i = \<lparr> f_path = absoluteFilePath dir (pre @ number (int i)),
        f_offset = int i * fsm, f_size = sz, f_end = int i * fsm + sz,
        f_id = toUtf8 (number (int i)) @ [1], f_blocks = blocks \<rparr>"
      by (simp add: nth[OF i] file_at_def Let_def sz_def bc_def lbs_def blocks_def)
    have sz_pos: "0 < sz" and sz_le: "sz \<le> fsm"
      using lfs_pos lfs_lt fsm_pos by (auto simp: sz_def)
    have sz_full: "Suc i < length files \<Longrightarrow> sz = fsm"
      using len by (auto simp: sz_def)
    have bc0: "0 \<le> bc"
      unfolding bc_def using sz_pos assms(2) by (rule count_of_nonneg)
    have blen: "length blocks = nat bc"
      using bc0 by (simp add: blocks_def)
    have bsum: "sum_list (map b_size blocks) = sz"
      unfolding blocks_def bc_def lbs_def using sz_pos assms(2) by (rule block_at_sizes)
    have lbs_pos: "lbs \<noteq> 0 \<Longrightarrow> 0 < lbs" and lbs_lt: "lbs < bsm"
      using assms(2) mod_pos_if_nonzero[of bsm sz] by (auto simp: lbs_def)
    have per_block: "b_rel_offset (blocks ! j) = int j * bsm \<and>
           b_abs_offset (blocks ! j) = int i * fsm + int j * bsm \<and>
           b_abs_end (blocks ! j) = b_abs_offset (blocks ! j) + b_size (blocks ! j) \<and>
           0 < b_size (blocks ! j) \<and> b_size (blocks ! j) \<le> bsm \<and>
           (Suc j < length blocks \<longrightarrow> b_size (blocks ! j) = bsm)"
      if j: "j < length blocks" for j
    proof -
      have bj: "blocks ! j = block_at bsm (int i) (int i * fsm) bc lbs (int j)"
        using j blen bc0 by (simp add: blocks_def)
      show ?thesis
        using lbs_pos lbs_lt assms(2) blen by (auto simp: bj block_at_def Let_def)
    qed
    show ?thesis
      using sz_pos sz_le sz_full bsum per_block by (simp add: fi)
  qed
  show ?thesis
    using eq sum per_file by blast
qed


theorem start_calculate_partition_witness:
  "\<exists>files. start_calculate ''/mnt'' ''CAPACITYTESTER'' (1024 * MB + 5) (512 * MB) (16 * MB) = Inr files \<and>
     sum_list (map f_size files) = 1024 * MB + 5 \<and>
     (\<forall>i < length files. f_offset (files ! i) = int i * (512 * MB))"
proof -
  have h: "0 < 1024 * MB + 5" "0 < 16 * MB" "16 * MB < 512 * MB" "512 * MB < 2 ^ 31"
    "1024 * MB + 5 \<le> (2 ^ 31 - 1) * (512 * MB)"
    by (simp_all add: MB_def)
  from start_calculate_partition[OF h, of "''/mnt''" "''CAPACITYTESTER''"]
  obtain files where
    "start_calculate ''/mnt'' ''CAPACITYTESTER'' (1024 * MB + 5) (512 * MB) (16 * MB) = Inr files"
    "sum_list (map f_size files) = 1024 * MB + 5"
    "\<forall>i < length files. f_offset (files ! i) = int i * (512 * MB)"
    by blast
  then show ?thesis by blast
qed

text \<open>
  Outside that range the count wraps: with the sizes the constructor sets and \<open>2 ^ 60\<close>
  bytes available, the number of files \<open>2 ^ 31\<close> becomes a negative \<open>int\<close>, the loop does
  not run, and the plan is empty.
\<close>

lemma start_calculate_overflow:
  "start_calculate mp pre (2 ^ 60) (512 * MB) (16 * MB) = Inr []"
  by (simp add: start_calculate_def MB_def to_int_def start_files.simps
        signed_divide_int_def signed_modulo_int_def)

section \<open>Block data and pattern\<close>

lemma blockData_planned:
  assumes "i < length (file_infos s)" "j < length (f_blocks (file_infos s ! i))"
    "0 < b_size (f_blocks (file_infos s ! i) ! j)"
    "b_size (f_blocks (file_infos s ! i) ! j) \<le> int (length (pattern s))"
  shows "blockData s (int i) (int j) =
     Inr (if int (length (b_id (f_blocks (file_infos s ! i) ! j))) \<le> b_size (f_blocks (file_infos s ! i) ! j)
          then b_id (f_blocks (file_infos s ! i) ! j) @
               drop (length (b_id (f_blocks (file_infos s ! i) ! j)))
                 (take (nat (b_size (f_blocks (file_infos s ! i) ! j))) (pattern s))
          else take (nat (b_size (f_blocks (file_infos s ! i) ! j))) (pattern s))"
proof -
  define blk where "blk = f_blocks (file_infos s ! i) ! j"
  have ne: "pattern s \<noteq> []" using assms(3,4) by (auto simp: blk_def)
  have len: "int (length (take (nat (b_size blk)) (pattern s))) = b_size blk"
    using assms(3,4) by (auto simp: blk_def min_def)
  have ne2: "take (nat (b_size blk)) (pattern s) \<noteq> []"
    using assms(3) ne by (simp add: blk_def)
  show ?thesis
    using assms ne len ne2
    by (auto simp: blockData_def Let_def replace_def blk_def[symmetric] min_def)
qed

text \<open>
  C10. For a block of the plan (its size is positive and at most the length of the pattern,
  as in every plan of \<open>start\<close>) that is shorter than its tag, \<open>blockData\<close> returns
  the pattern cut to the block's size, with no byte of the tag in place of a pattern byte.
  When the block is at least as long as its tag, the whole tag replaces the first bytes of
  the cut pattern. A tag is never written in part.
\<close>

theorem blockData_small_block:
  assumes "i < length (file_infos s)" "j < length (f_blocks (file_infos s ! i))"
    "0 < b_size (f_blocks (file_infos s ! i) ! j)"
    "b_size (f_blocks (file_infos s ! i) ! j) \<le> int (length (pattern s))"
  shows "(b_size (f_blocks (file_infos s ! i) ! j) < int (length (b_id (f_blocks (file_infos s ! i) ! j))) \<longrightarrow>
            blockData s (int i) (int j) =
              Inr (take (nat (b_size (f_blocks (file_infos s ! i) ! j))) (pattern s))) \<and>
         (int (length (b_id (f_blocks (file_infos s ! i) ! j))) \<le> b_size (f_blocks (file_infos s ! i) ! j) \<longrightarrow>
            blockData s (int i) (int j) =
              Inr (b_id (f_blocks (file_infos s ! i) ! j) @
                   drop (length (b_id (f_blocks (file_infos s ! i) ! j)))
                     (take (nat (b_size (f_blocks (file_infos s ! i) ! j))) (pattern s))))"
  using blockData_planned[OF assms] by auto

theorem blockData_small_block_witness:
  "blockData (sim_session sim_volume) 0 1 = Inr [7] \<and>
   blockData (sim_session sim_volume) 0 0 = Inr [48, 58, 48, 1]"
  using blockData_small_block[of 0 "sim_session sim_volume" 1]
    blockData_small_block[of 0 "sim_session sim_volume" 0]
  by (simp add: sim_session_def)

lemma fold_update_upt:
  "k \<le> length xs \<Longrightarrow> fold (\<lambda>i p. p[i := f i]) [0..<k] xs = map f [0..<k] @ drop k xs"
proof (induction k)
  case 0
  then show ?case by simp
next
  case (Suc k)
  then have "fold (\<lambda>i p. p[i := f i]) [0..<Suc k] xs = (map f [0..<k] @ drop k xs)[k := f k]"
    by simp
  also have "\<dots> = map f [0..<k] @ (drop k xs)[0 := f k]"
    by (simp add: list_update_append)
  also have "(drop k xs)[0 := f k] = f k # drop (Suc k) xs"
    using Suc.prems by (simp add: Cons_nth_drop_Suc[symmetric])
  finally show ?case by simp
qed

lemma generateTestPattern_eq:
  assumes "0 < to_int (block_size_max s)"
  shows "generateTestPattern dev s =
     Inr (s\<lparr>pattern := map (\<lambda>i. to_uchar (int (rand_seq dev (env s) i) smod 254 + 1))
                           [0..<nat (to_int (block_size_max s))]\<rparr>)"
  using assms by (simp add: generateTestPattern_def Let_def fold_update_upt)

lemma pattern_byte_range: "0 < to_uchar (int r smod 254 + 1) \<and> to_uchar (int r smod 254 + 1) < 255"
proof -
  have "int r smod 254 = int r mod 254" by (rule smod_nonneg) simp_all
  moreover have "0 \<le> int r mod 254" "int r mod 254 < 254" by simp_all
  ultimately show ?thesis by (simp add: to_uchar_def)
qed

section \<open>The run that start makes for the constructor's sizes\<close>

text \<open>
  For a tester as the constructor builds it, on a valid mountpoint with \<open>n > 0\<close> bytes
  available: \<open>start\<close> passes its assertions, generates a pattern of 16 MB, computes the plan
  and runs the three phases on it.
\<close>

lemma start_run_empty:
  assumes "file_infos s = []"
  shows "\<exists>s'. start_run E dev s = Inr s' \<and>
     events s' = events s @ [initializationStarted (bytes_total s), writeStarted, verifyStarted,
                             succeeded, finished] \<and>
     oplog s' = oplog s \<and> file_infos s' = []"
  using assms
  by (simp add: start_run_def start_tests_def initialize_def writeFull_def verifyFull_def
      start_finish_def deleteFiles_def Let_def emit_def)

lemma generateTestPattern_length:
  assumes "0 < block_size_max s" "block_size_max s < 2 ^ 31"
  shows "\<exists>pat. generateTestPattern dev s = Inr (s\<lparr>pattern := pat\<rparr>) \<and>
           int (length pat) = block_size_max s"
proof -
  have ti: "to_int (block_size_max s) = block_size_max s"
    using assms by (simp add: to_int_id)
  have "generateTestPattern dev s =
     Inr (s\<lparr>pattern := map (\<lambda>i. to_uchar (int (rand_seq dev (env s) i) smod 254 + 1))
                           [0..<nat (to_int (block_size_max s))]\<rparr>)"
    by (rule generateTestPattern_eq) (use assms ti in simp)
  moreover have "int (length (map (\<lambda>i. to_uchar (int (rand_seq dev (env s) i) smod 254 + 1))
                           [0..<nat (to_int (block_size_max s))])) = block_size_max s"
    using assms ti by simp
  ultimately show ?thesis by blast
qed

lemma start_plans:
  assumes v: "isValid_mountpoint dev e mp"
    and b: "si_bytesAvailable (storage dev e mp) = n" and pos: "0 < n"
    and plan: "start_calculate mp ''CAPACITYTESTER'' n (512 * MB) (16 * MB) = Inr fis"
  shows "\<exists>pat. int (length pat) = 16 * MB \<and>
     start E dev (VolumeTester E dev e mp) =
       start_run E dev ((VolumeTester E dev e mp)\<lparr>bytes_total := n, bytes_written := 0,
          bytes_remaining := n, pattern := pat, file_infos := fis\<rparr>)"
proof -
  define s where "s = VolumeTester E dev e mp"
  have f: "block_size_max s = 16 * MB" "file_size_max s = 512 * MB" "mountpoint s = mp"
    "env s = e" "file_prefix' s = ''CAPACITYTESTER''"
    using v by (simp_all add: s_def VolumeTester_def)
  have val: "isValid dev s" using v by (simp add: isValid_def f)
  have ba: "bytesAvailable dev s = n"
    using v b by (auto simp: bytesAvailable_def f isValid_mountpoint_def split: if_splits)
  define s1 where "s1 = s\<lparr>bytes_total := bytesAvailable dev s, bytes_written := 0,
                      bytes_remaining := bytesAvailable dev s\<rparr>"
  have f1: "block_size_max s1 = 16 * MB" "file_size_max s1 = 512 * MB" "mountpoint s1 = mp"
    "file_prefix' s1 = ''CAPACITYTESTER''" "bytes_total s1 = n"
    by (simp_all add: s1_def f ba)
  from generateTestPattern_length[of s1 dev] obtain pat where
    g: "generateTestPattern dev s1 = Inr (s1\<lparr>pattern := pat\<rparr>)" and
    l: "int (length pat) = 16 * MB"
    by (auto simp: f1 MB_def)
  have asserts: "(16 * MB) smod MB = 0" "(512 * MB) smod MB = 0" "(0::int) < 16 * MB" "(16::int) * MB < 512 * MB"
    by (simp_all add: MB_def signed_modulo_int_def)
  have eq: "s1\<lparr>pattern := pat, file_infos := fis\<rparr> =
      s\<lparr>bytes_total := n, bytes_written := 0, bytes_remaining := n, pattern := pat, file_infos := fis\<rparr>"
    by (simp add: s1_def ba)
  have "start E dev s = start_run E dev (s1\<lparr>pattern := pat, file_infos := fis\<rparr>)"
    unfolding start_def Let_def s1_def[symmetric]
    using val asserts g l plan pos
    by (simp add: f f1)
  then show ?thesis using l unfolding eq s_def by blast
qed

text \<open>
  C1. The plan does not partition the available bytes when the number of files does not fit
  an \<open>int\<close>: on a valid volume that reports \<open>2 ^ 60\<close> bytes available, \<open>start\<close> on a
  tester built by the constructor (block size 16 MB, file size 512 MB) computes an empty
  plan, whose sizes sum to \<open>0\<close>, makes no file call at all, and reports \<open>succeeded\<close>:
  nothing of the \<open>2 ^ 60\<close> bytes was planned, written or verified.
\<close>

theorem start_overflow_empty_plan:
  "bytesAvailable sim_dev (VolumeTester sim_Error sim_dev sim_huge ''/mnt'') = 2 ^ 60 \<and>
   block_size_max (VolumeTester sim_Error sim_dev sim_huge ''/mnt'') = 16 * MB \<and>
   file_size_max (VolumeTester sim_Error sim_dev sim_huge ''/mnt'') = 512 * MB \<and>
   start_calculate ''/mnt'' ''CAPACITYTESTER'' (2 ^ 60) (512 * MB) (16 * MB) = Inr [] \<and>
   sum_list (map f_size []) \<noteq> (2 ^ 60 :: int) \<and>
   (\<exists>s'. start sim_Error sim_dev (VolumeTester sim_Error sim_dev sim_huge ''/mnt'') = Inr s' \<and>
      events s' = [initializationStarted (2 ^ 60), writeStarted, verifyStarted, succeeded, finished] \<and>
      oplog s' = [] \<and> file_infos s' = [])"
proof -
  have v: "isValid_mountpoint sim_dev sim_huge ''/mnt''"
    by (simp add: isValid_mountpoint_def sim_dev_def sim_huge_def sim_volume_def)
  have b: "si_bytesAvailable (storage sim_dev sim_huge ''/mnt'') = 2 ^ 60"
    by (simp add: sim_dev_def sim_huge_def sim_volume_def)
  have plan: "start_calculate ''/mnt'' ''CAPACITYTESTER'' (2 ^ 60) (512 * MB) (16 * MB) = Inr []"
    by (rule start_calculate_overflow)
  define s where "s = VolumeTester sim_Error sim_dev sim_huge ''/mnt''"
  have f: "events s = []" "oplog s = []"
    by (simp_all add: s_def VolumeTester_def)
  from start_plans[OF v b _ plan, of sim_Error] obtain pat where
    st: "start sim_Error sim_dev s =
       start_run sim_Error sim_dev (s\<lparr>bytes_total := 2 ^ 60, bytes_written := 0,
          bytes_remaining := 2 ^ 60, pattern := pat, file_infos := []\<rparr>)"
    unfolding s_def by auto
  from start_run_empty[of "s\<lparr>bytes_total := 2 ^ 60, bytes_written := 0,
          bytes_remaining := 2 ^ 60, pattern := pat, file_infos := []\<rparr>" sim_Error sim_dev]
  obtain s' where "start sim_Error sim_dev s = Inr s'"
    "events s' = [initializationStarted (2 ^ 60), writeStarted, verifyStarted, succeeded, finished]"
    "oplog s' = []" "file_infos s' = []"
    unfolding st by (auto simp: f)
  moreover have "bytesAvailable sim_dev s = 2 ^ 60"
    using v by (simp add: s_def bytesAvailable_def VolumeTester_def sim_dev_def sim_huge_def sim_volume_def)
  moreover have "block_size_max s = 16 * MB" "file_size_max s = 512 * MB"
    by (simp_all add: s_def VolumeTester_def)
  moreover have "sum_list (map f_size []) \<noteq> (2 ^ 60 :: int)" by simp
  ultimately show ?thesis using plan unfolding s_def by blast
qed

section \<open>What the phases leave unchanged\<close>

lemma same_plan_refl [simp]: "same_plan s s"
  by (simp add: same_plan_def)

lemma same_plan_trans: "same_plan s s1 \<Longrightarrow> same_plan s1 s2 \<Longrightarrow> same_plan s s2"
  by (simp add: same_plan_def)

lemma same_plan_emit [simp]: "same_plan s (emit sig s')  = same_plan s s'"
  by (simp add: same_plan_def emit_def)

lemma same_plan_add_error [simp]: "same_plan s (add_error x s') = same_plan s s'"
  by (simp add: same_plan_def add_error_def)

lemma same_plan_deliver [simp]: "same_plan s (deliver E dev s') = same_plan s s'"
  by (simp add: same_plan_def deliver_def cancel_def)

lemma deliver_fields [simp]:
  "file_infos (deliver E dev s) = file_infos s"
  "pattern (deliver E dev s) = pattern s"
  "block_size_max (deliver E dev s) = block_size_max s"
  "file_size_max (deliver E dev s) = file_size_max s"
  "file_prefix' (deliver E dev s) = file_prefix' s"
  "mountpoint (deliver E dev s) = mountpoint s"
  "bytes_total (deliver E dev s) = bytes_total s"
  "oplog (deliver E dev s) = oplog s"
  "events (deliver E dev s) = events s"
  "env (deliver E dev s) = env s"
  by (simp_all add: deliver_def cancel_def)

lemma emit_fields [simp]:
  "file_infos (emit sig s) = file_infos s"
  "pattern (emit sig s) = pattern s"
  "oplog (emit sig s) = oplog s"
  "events (emit sig s) = events s @ [sig]"
  "env (emit sig s) = env s"
  "canceled (emit sig s) = canceled s"
  "error_type (emit sig s) = error_type s"
  "cancel_pos (emit sig s) = cancel_pos s"
  "bytes_total (emit sig s) = bytes_total s"
  "block_size_max (emit sig s) = block_size_max s"
  "file_size_max (emit sig s) = file_size_max s"
  "file_prefix' (emit sig s) = file_prefix' s"
  "mountpoint (emit sig s) = mountpoint s"
  by (simp_all add: emit_def)

lemma add_error_fields [simp]:
  "file_infos (add_error x s) = file_infos s"
  "pattern (add_error x s) = pattern s"
  "oplog (add_error x s) = oplog s"
  "events (add_error x s) = events s"
  "env (add_error x s) = env s"
  "canceled (add_error x s) = canceled s"
  "error_type (add_error x s) = error_type s OR x"
  "cancel_pos (add_error x s) = cancel_pos s"
  "bytes_total (add_error x s) = bytes_total s"
  "block_size_max (add_error x s) = block_size_max s"
  "file_size_max (add_error x s) = file_size_max s"
  "file_prefix' (add_error x s) = file_prefix' s"
  "mountpoint (add_error x s) = mountpoint s"
  by (simp_all add: add_error_def)

lemma call_eq:
  "call E dev f entry s =
     (fst (f (env s)),
      deliver E dev (s\<lparr>env := snd (f (env s)), oplog := oplog s @ [entry (fst (f (env s)))]\<rparr>))"
  by (simp add: call_def split: prod.splits)

lemma same_plan_call: "call E dev f entry s = (r, s') \<Longrightarrow> same_plan s s'"
  by (auto simp: call_eq same_plan_def)

lemma same_plan_do:
  "do_open E dev p s = (ro, s') \<Longrightarrow> same_plan s s'"
  "do_seek E dev p pos s = (rb, s') \<Longrightarrow> same_plan s s'"
  "do_write E dev p d s = (ri, s') \<Longrightarrow> same_plan s s'"
  "do_resize E dev p n s = (rb, s') \<Longrightarrow> same_plan s s'"
  "do_putChar E dev p b s = (rb, s') \<Longrightarrow> same_plan s s'"
  "do_getChar E dev p s = (rc, s') \<Longrightarrow> same_plan s s'"
  "do_read E dev p n s = (rd, s') \<Longrightarrow> same_plan s s'"
  "do_remove E dev p s = (rb, s') \<Longrightarrow> same_plan s s'"
  unfolding do_open_def do_seek_def do_write_def do_resize_def do_putChar_def do_getChar_def
    do_read_def do_remove_def
  by (erule same_plan_call)+

lemma same_plan_do_fsync [simp]: "same_plan s (do_fsync E dev p s') = same_plan s s'"
  by (simp add: do_fsync_def call_eq same_plan_def)

lemma do_fsync_fields [simp]:
  "file_infos (do_fsync E dev p s) = file_infos s"
  "pattern (do_fsync E dev p s) = pattern s"
  "block_size_max (do_fsync E dev p s) = block_size_max s"
  "file_size_max (do_fsync E dev p s) = file_size_max s"
  "file_prefix' (do_fsync E dev p s) = file_prefix' s"
  "mountpoint (do_fsync E dev p s) = mountpoint s"
  "bytes_total (do_fsync E dev p s) = bytes_total s"
  "events (do_fsync E dev p s) = events s"
  by (simp_all add: do_fsync_def call_eq)

lemma same_plan_seek:
  "seek_write E dev f pos d x s = (r, s') \<Longrightarrow> same_plan s s'"
  "seek_putChar E dev f pos b s = (r, s') \<Longrightarrow> same_plan s s'"
  "seek_getChar E dev f pos b s = (r, s') \<Longrightarrow> same_plan s s'"
  "seek_read E dev f pos n d s = (r, s') \<Longrightarrow> same_plan s s'"
  unfolding seek_write_def seek_putChar_def seek_getChar_def seek_read_def
  by (auto split: prod.splits bool.splits dest!: same_plan_do simp: same_plan_def)

lemma for_each_rule:
  assumes "for_each body is s1 = (r, s')" "R True s1"
    and "\<And>i s1 r1 s2. i \<in> set is \<Longrightarrow> R True s1 \<Longrightarrow> body i s1 = (r1, s2) \<Longrightarrow> R r1 s2"
  shows "R r s'"
  using assms
proof (induction "is" arbitrary: s1)
  case Nil
  then show ?case by simp
next
  case (Cons i "is")
  obtain r1 s2 where b: "body i s1 = (r1, s2)" by (cases "body i s1")
  have R1: "R r1 s2" by (rule Cons.prems(3)[OF _ Cons.prems(2) b]) simp
  have R3: "R r2 s3" if "j \<in> set is" "R True x" "body j x = (r2, s3)" for j x r2 s3
    using that Cons.prems(3)[of j x r2 s3] by simp
  show ?case
  proof (cases r1)
    case True
    have run: "for_each body is s2 = (r, s')" using Cons.prems(1) b True by simp
    have "R True s2" using R1 True by simp
    then show ?thesis by (rule Cons.IH[OF run _ R3])
  next
    case False
    then show ?thesis using Cons.prems(1) b R1 by simp
  qed
qed

lemma for_each_a_rule:
  assumes "for_each_a body is s1 = Inr (r, s')" "R True s1"
    and "\<And>i s1 r1 s2. i \<in> set is \<Longrightarrow> R True s1 \<Longrightarrow> body i s1 = Inr (r1, s2) \<Longrightarrow> R r1 s2"
  shows "R r s'"
  using assms
proof (induction "is" arbitrary: s1)
  case Nil
  then show ?case by simp
next
  case (Cons i "is")
  from Cons.prems(1) obtain r1 s2 where b: "body i s1 = Inr (r1, s2)"
    by (cases "body i s1") (auto split: prod.splits)
  have R1: "R r1 s2" by (rule Cons.prems(3)[OF _ Cons.prems(2) b]) simp
  have R3: "R r2 s3" if "j \<in> set is" "R True x" "body j x = Inr (r2, s3)" for j x r2 s3
    using that Cons.prems(3)[of j x r2 s3] by simp
  show ?case
  proof (cases r1)
    case True
    have run: "for_each_a body is s2 = Inr (r, s')" using Cons.prems(1) b True by simp
    have "R True s2" using R1 True by simp
    then show ?thesis by (rule Cons.IH[OF run _ R3])
  next
    case False
    then show ?thesis using Cons.prems(1) b R1 by simp
  qed
qed

lemma same_plan_initialize_verify:
  "initialize_verify E dev i s = (r, s') \<Longrightarrow> same_plan s s'"
  unfolding initialize_verify_def Let_def
  by (auto split: prod.splits bool.splits if_splits dest!: same_plan_seek simp: same_plan_def)

lemma same_plan_initialize_create:
  "initialize_create E dev i s = (r, s') \<Longrightarrow> same_plan s s'"
  unfolding initialize_create_def Let_def
  by (auto split: prod.splits bool.splits if_splits dest!: same_plan_seek same_plan_do simp: same_plan_def)

lemma same_plan_initialize_file:
  "initialize_file E dev i s = (r, s') \<Longrightarrow> same_plan s s'"
  unfolding initialize_file_def
  by (auto split: prod.splits bool.splits
      dest!: same_plan_initialize_create same_plan_initialize_verify simp: same_plan_def)

lemma same_plan_initialize:
  assumes "initialize E dev s = (r, s')"
  shows "same_plan s s'"
proof -
  obtain r1 s1 where 1: "for_each (initialize_file E dev) [0..<length (file_infos s)]
             (emit (initializationStarted (bytes_total s)) s) = (r1, s1)"
    by (cases "for_each (initialize_file E dev) [0..<length (file_infos s)]
             (emit (initializationStarted (bytes_total s)) s)")
  have p1: "same_plan s s1"
    by (rule for_each_rule[where R = "\<lambda>r x. same_plan s x", OF 1])
       (auto dest!: same_plan_initialize_file intro: same_plan_trans)
  show ?thesis
  proof (cases r1)
    case False
    then show ?thesis using assms 1 p1 by (simp add: initialize_def)
  next
    case True
    then have 2: "for_each (initialize_verify E dev) [0..<length (file_infos s1)] s1 = (r, s')"
      using assms 1 by (simp add: initialize_def)
    show ?thesis
      by (rule for_each_rule[where R = "\<lambda>r x. same_plan s x", OF 2 p1])
         (auto dest!: same_plan_initialize_verify intro: same_plan_trans)
  qed
qed

lemma same_plan_writeFull_block:
  "writeFull_block E dev i j s = Inr (r, s') \<Longrightarrow> same_plan s s'"
  unfolding writeFull_block_def Let_def
  by (auto split: sum.splits prod.splits bool.splits if_splits dest!: same_plan_seek
      simp: same_plan_def)

lemma same_plan_writeFull_file:
  assumes "writeFull_file E dev i s = Inr (r, s')"
  shows "same_plan s s'"
  using assms unfolding writeFull_file_def Let_def
  by (rule for_each_a_rule[where R = "\<lambda>r x. same_plan s x"])
     (auto dest!: same_plan_writeFull_block intro: same_plan_trans)

lemma same_plan_writeFull:
  assumes "writeFull E dev s = Inr (r, s')"
  shows "same_plan s s'"
  using assms unfolding writeFull_def
  by (rule for_each_a_rule[where R = "\<lambda>r x. same_plan s x"])
     (auto dest!: same_plan_writeFull_file intro: same_plan_trans)

lemma same_plan_verifyFull_block:
  "verifyFull_block E dev i j s = Inr (r, s') \<Longrightarrow> same_plan s s'"
  unfolding verifyFull_block_def Let_def
  by (auto split: sum.splits prod.splits bool.splits if_splits dest!: same_plan_seek
      simp: same_plan_def)

lemma same_plan_verifyFull_file:
  assumes "verifyFull_file E dev i s = Inr (r, s')"
  shows "same_plan s s'"
  using assms unfolding verifyFull_file_def Let_def
  by (rule for_each_a_rule[where R = "\<lambda>r x. same_plan s x"])
     (auto dest!: same_plan_verifyFull_block intro: same_plan_trans)

lemma same_plan_verifyFull:
  assumes "verifyFull E dev s = Inr (r, s')"
  shows "same_plan s s'"
  using assms unfolding verifyFull_def
  by (rule for_each_a_rule[where R = "\<lambda>r x. same_plan s x"])
     (auto dest!: same_plan_verifyFull_file intro: same_plan_trans)

lemma blockData_same_plan:
  assumes "same_plan s s'"
  shows "blockData s' i j = blockData s i j"
proof -
  have a: "file_infos s' = file_infos s" and b: "pattern s' = pattern s"
    using assms by (simp_all add: same_plan_def)
  show ?thesis unfolding blockData_def a b by (rule refl)
qed

lemma same_plan_start_tests:
  assumes "start_tests E dev s = Inr (r, s')"
  shows "same_plan s s'"
  using assms unfolding start_tests_def
  by (auto split: prod.splits bool.splits sum.splits
      dest!: same_plan_initialize same_plan_writeFull same_plan_verifyFull simp: same_plan_def)

lemma call_fields [simp]:
  "file_infos (snd (call E dev f entry s)) = file_infos s"
  "pattern (snd (call E dev f entry s)) = pattern s"
  "events (snd (call E dev f entry s)) = events s"
  "oplog (snd (call E dev f entry s)) = oplog s @ [entry (fst (call E dev f entry s))]"
  by (simp_all add: call_eq)

lemma deleteFiles_loop_spec:
  "k \<le> length (file_infos s) \<Longrightarrow>
     file_infos (deleteFiles_loop E dev k s) = drop k (file_infos s) \<and>
     pattern (deleteFiles_loop E dev k s) = pattern s \<and>
     events (deleteFiles_loop E dev k s) = events s \<and>
     (\<exists>rs. length rs = k \<and>
        oplog (deleteFiles_loop E dev k s) =
          oplog s @ map (\<lambda>(f, r). QRemove (f_path f) r) (zip (rev (take k (file_infos s))) rs))"
proof (induction k arbitrary: s)
  case 0
  then show ?case by simp
next
  case (Suc k)
  define s1 where "s1 = snd (do_remove E dev (f_path (file_infos s ! k)) s)"
  define s2 where "s2 = s1\<lparr>file_infos := removeAt k (file_infos s1)\<rparr>"
  define r where "r = fst (do_remove E dev (f_path (file_infos s ! k)) s)"
  have f1: "file_infos s1 = file_infos s" "pattern s1 = pattern s" "events s1 = events s"
    "oplog s1 = oplog s @ [QRemove (f_path (file_infos s ! k)) r]"
    by (simp_all add: s1_def r_def do_remove_def)
  have f2: "file_infos s2 = take k (file_infos s) @ drop (Suc k) (file_infos s)"
    "pattern s2 = pattern s" "events s2 = events s"
    "oplog s2 = oplog s @ [QRemove (f_path (file_infos s ! k)) r]"
    by (simp_all add: s2_def f1 removeAt_def)
  have step: "deleteFiles_loop E dev (Suc k) s = deleteFiles_loop E dev k s2"
    by (simp add: Let_def s1_def s2_def)
  have k: "k \<le> length (file_infos s2)" using Suc.prems by (simp add: f2)
  from Suc.IH[OF k] obtain rs where rs: "length rs = k"
    "oplog (deleteFiles_loop E dev k s2) =
       oplog s2 @ map (\<lambda>(f, r). QRemove (f_path f) r) (zip (rev (take k (file_infos s2))) rs)"
    and rest: "file_infos (deleteFiles_loop E dev k s2) = drop k (file_infos s2)"
      "pattern (deleteFiles_loop E dev k s2) = pattern s2"
      "events (deleteFiles_loop E dev k s2) = events s2"
    by blast
  have tk: "take k (file_infos s2) = take k (file_infos s)"
    using Suc.prems by (simp add: f2)
  have dk: "drop k (file_infos s2) = drop (Suc k) (file_infos s)"
    using Suc.prems by (simp add: f2)
  have rv: "rev (take (Suc k) (file_infos s)) = file_infos s ! k # rev (take k (file_infos s))"
    using Suc.prems by (simp add: take_Suc_conv_app_nth)
  have D: "oplog (deleteFiles_loop E dev (Suc k) s) =
      oplog s @ map (\<lambda>(f, r). QRemove (f_path f) r) (zip (rev (take (Suc k) (file_infos s))) (r # rs))"
    unfolding step rs(2) tk by (simp add: f2(4) rv)
  have len: "length (r # rs) = Suc k" using rs by simp
  have A: "file_infos (deleteFiles_loop E dev (Suc k) s) = drop (Suc k) (file_infos s)"
    unfolding step rest(1) dk by (rule refl)
  have B: "pattern (deleteFiles_loop E dev (Suc k) s) = pattern s"
    unfolding step rest(2) f2(2) by (rule refl)
  have C: "events (deleteFiles_loop E dev (Suc k) s) = events s"
    unfolding step rest(3) f2(3) by (rule refl)
  from A B C D len show ?case by blast
qed

lemma deleteFiles_spec:
  "\<exists>s' rs. deleteFiles E dev s = Inr s' \<and> file_infos s' = [] \<and> pattern s' = pattern s \<and>
     events s' = events s \<and> length rs = length (file_infos s) \<and>
     oplog s' = oplog s @ map (\<lambda>(f, r). QRemove (f_path f) r) (zip (rev (file_infos s)) rs)"
  using deleteFiles_loop_spec[of "length (file_infos s)" s E dev]
  by (auto simp: deleteFiles_def Let_def)

lemma same_pattern_start_run:
  assumes "start_run E dev s = Inr s'"
  shows "pattern s' = pattern s"
proof -
  from assms obtain ok s2 where t: "start_tests E dev s = Inr (ok, s2)"
    and f: "start_finish E dev ok s2 = Inr s'"
    by (auto simp: start_run_def split: sum.splits prod.splits)
  have "pattern s2 = pattern s"
    using same_plan_start_tests[OF t] by (simp add: same_plan_def)
  moreover have "pattern s' = pattern s2"
    using f deleteFiles_spec[of E dev "emit finished (emit succeeded s2)"]
      deleteFiles_spec[of E dev "emit finished (emit (failed (Some (error_type s2))) s2)"]
    by (auto simp: start_finish_def split: if_splits)
  ultimately show ?thesis by simp
qed

text \<open>
  C3. For a block size that an \<open>int\<close> holds (the constructor sets 16 MB),
  \<open>generateTestPattern\<close> returns, for every sequence of \<open>rand()\<close> values, a pattern of
  exactly \<open>block_size_max\<close> bytes, each strictly between 0 and 255. The rest of the run,
  whatever plan it works on and whatever the environment does, leaves the pattern as
  generated: after the three phases and after the cleanup it is the same byte string.
\<close>

theorem generateTestPattern_pattern:
  assumes "0 < block_size_max s" "block_size_max s < 2 ^ 31"
  shows "\<exists>s1. generateTestPattern dev s = Inr s1 \<and>
           int (length (pattern s1)) = block_size_max s \<and>
           (\<forall>b \<in> set (pattern s1). 0 < b \<and> b < 255) \<and>
           (\<forall>E fis ok s2. start_tests E dev (s1\<lparr>file_infos := fis\<rparr>) = Inr (ok, s2) \<longrightarrow>
              pattern s2 = pattern s1) \<and>
           (\<forall>E fis s3. start_run E dev (s1\<lparr>file_infos := fis\<rparr>) = Inr s3 \<longrightarrow>
              pattern s3 = pattern s1)"
proof -
  have id: "to_int (block_size_max s) = block_size_max s"
    using assms by (simp add: to_int_id)
  define s1 where "s1 = s\<lparr>pattern := map (\<lambda>i. to_uchar (int (rand_seq dev (env s) i) smod 254 + 1))
                           [0..<nat (block_size_max s)]\<rparr>"
  have gen: "generateTestPattern dev s = Inr s1"
    using generateTestPattern_eq[of s dev] assms(1) by (simp add: id s1_def)
  have len: "int (length (pattern s1)) = block_size_max s"
    using assms(1) by (simp add: s1_def)
  have rng: "\<forall>b \<in> set (pattern s1). 0 < b \<and> b < 255"
    using pattern_byte_range by (auto simp: s1_def)
  have t: "pattern s2 = pattern s1" if "start_tests E dev (s1\<lparr>file_infos := fis\<rparr>) = Inr (ok, s2)"
    for E fis ok s2
    using same_plan_start_tests[OF that] by (simp add: same_plan_def)
  have r: "pattern s3 = pattern s1" if "start_run E dev (s1\<lparr>file_infos := fis\<rparr>) = Inr s3"
    for E fis s3
    using same_pattern_start_run[OF that] by simp
  show ?thesis using gen len rng t r by blast
qed

theorem generateTestPattern_pattern_witness:
  "\<exists>s1. generateTestPattern sim_dev (VolumeTester sim_Error sim_dev sim_volume ''/mnt'') = Inr s1 \<and>
     int (length (pattern s1)) = 16 * MB \<and> (\<forall>b \<in> set (pattern s1). 0 < b \<and> b < 255)"
proof -
  have h: "0 < block_size_max (VolumeTester sim_Error sim_dev sim_volume ''/mnt'')"
    "block_size_max (VolumeTester sim_Error sim_dev sim_volume ''/mnt'') < 2 ^ 31"
    by (simp_all add: VolumeTester_def MB_def)
  from generateTestPattern_pattern[OF h, of sim_dev]
  obtain s1 where "generateTestPattern sim_dev (VolumeTester sim_Error sim_dev sim_volume ''/mnt'') = Inr s1"
    "int (length (pattern s1)) = block_size_max (VolumeTester sim_Error sim_dev sim_volume ''/mnt'')"
    "\<forall>b \<in> set (pattern s1). 0 < b \<and> b < 255"
    by blast
  then show ?thesis by (auto simp: VolumeTester_def)
qed

text \<open>
  C7. On a valid mountpoint (and with sizes that pass the assertions of \<open>start\<close>), when no
  byte is available \<open>start\<close> emits \<open>failed(Error::Full)\<close> and then \<open>finished\<close> and returns:
  no library call is made on any file, the environment is as before, and the list of planned
  files is untouched. When the mountpoint is not valid, \<open>start\<close> emits \<open>failed()\<close> and
  \<open>finished\<close> and returns, again without any call and without touching the plan.
\<close>

theorem start_fails_early:
  "(isValid dev s \<and> 0 < block_size_max s \<and> block_size_max s smod MB = 0 \<and>
    0 < file_size_max s \<and> file_size_max s smod MB = 0 \<and> block_size_max s < file_size_max s \<and>
    bytesAvailable dev s \<le> 0 \<longrightarrow>
      (\<exists>s'. start E dev s = Inr s' \<and> events s' = events s @ [failed (Some (Full E)), finished] \<and>
            oplog s' = oplog s \<and> env s' = env s \<and> file_infos s' = file_infos s)) \<and>
   (\<not> isValid dev s \<longrightarrow>
      (\<exists>s'. start E dev s = Inr s' \<and> events s' = events s @ [failed None, finished] \<and>
            oplog s' = oplog s \<and> env s' = env s \<and> file_infos s' = file_infos s))"
  by (simp add: start_def Let_def emit_def)

theorem start_fails_early_witness:
  "(\<exists>s'. start sim_Error sim_dev
           (VolumeTester sim_Error sim_dev
              (sim_volume\<lparr>sim_info := (sim_info sim_volume)\<lparr>si_bytesAvailable := 0\<rparr>\<rparr>) ''/mnt'') = Inr s' \<and>
         events s' = [failed (Some 2), finished] \<and> oplog s' = [] \<and> file_infos s' = []) \<and>
   (\<exists>s'. start sim_Error sim_dev (VolumeTester sim_Error sim_dev sim_volume ''/media'') = Inr s' \<and>
         events s' = [failed None, finished] \<and> oplog s' = [] \<and> file_infos s' = [])"
  using start_fails_early[of sim_dev
      "VolumeTester sim_Error sim_dev
         (sim_volume\<lparr>sim_info := (sim_info sim_volume)\<lparr>si_bytesAvailable := 0\<rparr>\<rparr>) ''/mnt''" sim_Error]
    start_fails_early[of sim_dev "VolumeTester sim_Error sim_dev sim_volume ''/media''" sim_Error]
  by (auto simp: VolumeTester_def isValid_def isValid_mountpoint_def bytesAvailable_def sim_dev_def
      sim_volume_def sim_Error_def MB_def signed_modulo_int_def)

section \<open>The writer stops at the first failed write (C5)\<close>

lemma stepped_do:
  "do_open E dev p s = ((ok, perm), s') \<Longrightarrow> stepped E dev s (QOpen p ok perm) s'"
  "do_seek E dev p pos s = (rb, s') \<Longrightarrow> stepped E dev s (QSeek p pos rb) s'"
  "do_write E dev p d s = (ri, s') \<Longrightarrow> stepped E dev s (QWrite p d ri) s'"
  "do_resize E dev p n s = (rb, s') \<Longrightarrow> stepped E dev s (QResize p n rb) s'"
  "do_putChar E dev p b s = (rb, s') \<Longrightarrow> stepped E dev s (QPutChar p b rb) s'"
  "do_getChar E dev p s = (rc, s') \<Longrightarrow> stepped E dev s (QGetChar p rc) s'"
  "do_read E dev p n s = (rd, s') \<Longrightarrow> stepped E dev s (QRead p n rd) s'"
  "do_remove E dev p s = (rb, s') \<Longrightarrow> stepped E dev s (QRemove p rb) s'"
  unfolding do_open_def do_seek_def do_write_def do_resize_def do_putChar_def do_getChar_def
    do_read_def do_remove_def call_def stepped_def
  by (auto split: prod.splits)

lemma stepped_fsync:
  "do_fsync E dev p s = s' \<Longrightarrow> (\<not> USE_FSYNC dev \<and> s' = s) \<or> (USE_FSYNC dev \<and> stepped E dev s (QFsync p) s')"
  by (cases "USE_FSYNC dev") (auto simp: do_fsync_def call_eq stepped_def)

lemma stepped_fields:
  assumes "stepped E dev s e s'"
  shows "same_plan s s'" "oplog s' = oplog s @ [e]" "events s' = events s"
  using assms by (auto simp: stepped_def same_plan_def)

lemma or_and_absorb: "(x OR (w::int)) AND w = w"
  by (simp add: bit_eq_iff bit_and_iff bit_or_iff) blast

lemma or_and_mono: "(x::int) AND w = w \<Longrightarrow> (x OR y) AND w = w"
  by (simp add: bit_eq_iff bit_and_iff bit_or_iff) blast

lemma has_flag_simps [simp]:
  "has_flag x (add_error x s)"
  "has_flag x s \<Longrightarrow> has_flag x (add_error y s)"
  "has_flag x (emit sig s) = has_flag x s"
  by (simp_all add: has_flag_def or_and_absorb or_and_mono)

lemma has_flag_stepped: "stepped E dev s e s' \<Longrightarrow> has_flag x s \<Longrightarrow> has_flag x s'"
  by (auto simp: stepped_def has_flag_def deliver_def cancel_def or_and_mono)

lemma seek_write_cases:
  assumes "seek_write E dev f pos d x s = (ok, s')"
  shows "(\<not> ok \<and> stepped E dev s (QSeek f pos False) s') \<or>
         (\<exists>s1 n. stepped E dev s (QSeek f pos True) s1 \<and> stepped E dev s1 (QWrite f d n) s' \<and>
                 ok = (n = x))"
  using assms unfolding seek_write_def
  by (auto split: prod.splits bool.splits dest!: stepped_do)

lemma seek_read_cases:
  assumes "seek_read E dev f pos n x s = (ok, s')"
  shows "(\<not> ok \<and> stepped E dev s (QSeek f pos False) s') \<or>
         (\<exists>s1 d. stepped E dev s (QSeek f pos True) s1 \<and> stepped E dev s1 (QRead f n d) s' \<and>
                 ok = (d = x))"
  using assms unfolding seek_read_def
  by (auto split: prod.splits bool.splits dest!: stepped_do)

lemma seek_putChar_cases:
  assumes "seek_putChar E dev f pos b s = (ok, s')"
  shows "(\<not> ok \<and> stepped E dev s (QSeek f pos False) s') \<or>
         (\<exists>s1. stepped E dev s (QSeek f pos True) s1 \<and> stepped E dev s1 (QPutChar f b ok) s')"
  using assms unfolding seek_putChar_def
  by (auto split: prod.splits bool.splits dest!: stepped_do)

lemma seek_getChar_cases:
  assumes "seek_getChar E dev f pos b s = (ok, s')"
  shows "(\<not> ok \<and> stepped E dev s (QSeek f pos False) s') \<or>
         (\<exists>s1 c. stepped E dev s (QSeek f pos True) s1 \<and> stepped E dev s1 (QGetChar f c) s' \<and>
                 ok = (c = Some b))"
  using assms unfolding seek_getChar_def
  by (auto split: prod.splits bool.splits dest!: stepped_do)

lemma blockData_length:
  assumes "blockData s i j = Inr d"
  shows "int (length d) = b_size (f_blocks (file_infos s ! nat i) ! nat j)"
  using assms unfolding blockData_def Let_def
  by (auto split: if_splits)


lemma writer_good_refl [simp]: "writer_good s s"
  by (simp add: writer_good_def)

lemma writer_good_emit [simp]: "writer_good s s' \<Longrightarrow> writer_good s (emit sig s')"
  by (auto simp: writer_good_def)

lemma writer_good_stepped:
  assumes "writer_good s s1" "stepped E dev s1 e s2" "\<not> write_failed e"
  shows "writer_good s s2"
  using assms stepped_fields[OF assms(2)]
  by (auto simp: writer_good_def same_plan_def)

lemma writer_good_fsync:
  assumes "writer_good s s1"
  shows "writer_good s (do_fsync E dev p s1)"
  using stepped_fsync[OF refl, where E = E and dev = dev and p = p and s = s1] assms
  by (auto intro: writer_good_stepped simp: write_failed_def)

lemma writer_good_plan: "writer_good s s' \<Longrightarrow> same_plan s s'"
  by (simp add: writer_good_def)

lemma writer_post_True: "writer_post E dev s True s' \<Longrightarrow> writer_good s s'"
  by (simp add: writer_post_def)

lemma writer_post_failI:
  assumes "writer_good s s1" "stepped E dev s1 e s2" "block_failure s i j e"
  shows "writer_post E dev s False
           (emit (writeFailed (b_abs_offset (f_blocks (file_infos s ! i) ! j))
                    (b_size (f_blocks (file_infos s ! i) ! j)))
              (add_error (Write E) s2))"
  unfolding writer_post_def using assms by blast

lemma writeFull_block_post:
  assumes run: "writeFull_block E dev i j s1 = Inr (ok, s2)"
    and good: "writer_good s s1"
    and i: "i < length (file_infos s)" and j: "j < length (f_blocks (file_infos s ! i))"
  shows "writer_post E dev s ok s2"
proof -
  have sp: "same_plan s s1" using good by (rule writer_good_plan)
  then have fi: "file_infos s1 = file_infos s" by (simp add: same_plan_def)
  define fl where "fl = f_path (file_infos s ! i)"
  define blk where "blk = f_blocks (file_infos s ! i) ! j"
  from run obtain d where bd: "blockData s1 (int i) (int j) = Inr d"
    by (auto simp: writeFull_block_def Let_def split: sum.splits)
  have bd0: "blockData s (int i) (int j) = Inr d"
    using bd blockData_same_plan[OF sp] by simp
  have len: "int (length d) = b_size blk"
    using blockData_length[OF bd0] by (simp add: blk_def)
  obtain w sw where sw: "seek_write E dev fl (b_rel_offset blk) d (b_size blk) s1 = (w, sw)"
    by (cases "seek_write E dev fl (b_rel_offset blk) d (b_size blk) s1")
  have res: "(\<not> w \<and> \<not> ok \<and> s2 = emit (writeFailed (b_abs_offset blk) (b_size blk)) (add_error (Write E) sw)) \<or>
             (w \<and> s2 = emit (written (b_abs_end blk)) (do_fsync E dev fl sw))"
    using run bd sw
    by (auto simp: writeFull_block_def Let_def fi fl_def blk_def split: if_splits bool.splits)
  from seek_write_cases[OF sw]
  show ?thesis
  proof (elim disjE conjE exE)
    assume nw: "\<not> w" and st: "stepped E dev s1 (QSeek fl (b_rel_offset blk) False) sw"
    have bf: "block_failure s i j (QSeek fl (b_rel_offset blk) False)"
      using i j by (simp add: block_failure_def fl_def blk_def)
    have "ok = False" "s2 = emit (writeFailed (b_abs_offset blk) (b_size blk)) (add_error (Write E) sw)"
      using nw res by auto
    then show ?thesis
      using writer_post_failI[OF good st bf] by (simp add: blk_def)
  next
    fix sk n
    assume st1: "stepped E dev s1 (QSeek fl (b_rel_offset blk) True) sk"
      and st2: "stepped E dev sk (QWrite fl d n) sw" and w: "w = (n = b_size blk)"
    have g1: "writer_good s sk"
      using good st1 by (rule writer_good_stepped) (simp add: write_failed_def)
    show ?thesis
    proof (cases w)
      case True
      then have "\<not> write_failed (QWrite fl d n)" using w len by (simp add: write_failed_def)
      with g1 st2 have "writer_good s sw" by (rule writer_good_stepped)
      then have "writer_good s s2" using res True by (simp add: writer_good_fsync)
      then show ?thesis by (simp add: writer_post_def)
    next
      case False
      have bf: "block_failure s i j (QWrite fl d n)"
        using i j bd0 False w by (auto simp: block_failure_def fl_def blk_def)
      have "ok = False" "s2 = emit (writeFailed (b_abs_offset blk) (b_size blk)) (add_error (Write E) sw)"
        using False res by auto
      then show ?thesis
        using writer_post_failI[OF g1 st2 bf] by (simp add: blk_def)
    qed
  qed
qed

lemma writeFull_file_post:
  assumes run: "writeFull_file E dev i s1 = Inr (ok, s2)"
    and good: "writer_good s s1" and i: "i < length (file_infos s)"
  shows "writer_post E dev s ok s2"
proof -
  have fi: "file_infos s1 = file_infos s"
    using writer_good_plan[OF good] by (simp add: same_plan_def)
  have run': "for_each_a (writeFull_block E dev i) [0..<length (f_blocks (file_infos s ! i))]
                (do_fsync E dev (f_path (file_infos s ! i)) s1) = Inr (ok, s2)"
    using run by (simp add: writeFull_file_def Let_def fi)
  show ?thesis
  proof (rule for_each_a_rule[where R = "writer_post E dev s", OF run'])
    show "writer_post E dev s True (do_fsync E dev (f_path (file_infos s ! i)) s1)"
      using good by (simp add: writer_post_def writer_good_fsync)
  next
    fix j x r1 y
    assume "j \<in> set [0..<length (f_blocks (file_infos s ! i))]" "writer_post E dev s True x"
      "writeFull_block E dev i j x = Inr (r1, y)"
    then show "writer_post E dev s r1 y"
      using i by (intro writeFull_block_post[where ?s1.0 = x]) (auto dest: writer_post_True)
  qed
qed

lemma writeFull_post:
  assumes run: "writeFull E dev s = Inr (ok, s')"
  shows "writer_post E dev s ok s'"
proof (rule for_each_a_rule[where R = "writer_post E dev s", OF run[unfolded writeFull_def]])
  show "writer_post E dev s True (emit writeStarted s)"
    by (simp add: writer_post_def)
next
  fix i x r1 y
  assume "i \<in> set [0..<length (file_infos s)]" "writer_post E dev s True x"
    "writeFull_file E dev i x = Inr (r1, y)"
  then show "writer_post E dev s r1 y"
    by (intro writeFull_file_post[where ?s1.0 = x]) (auto dest: writer_post_True)
qed

text \<open>
  C5. Take any run of \<open>writeFull\<close> and any failed seek or short write among the calls it
  made. Then that call is the last one the writer made (nothing is written after it, in this
  file or a later one, and the call is not repeated), the writer returns \<open>false\<close>, the
  \<open>Write\<close> bit is set in the error mask, and the last signal is \<open>writeFailed\<close> with the
  absolute offset and the size of the very block \<open>j\<close> of file \<open>i\<close> whose seek or write it
  was.
\<close>

theorem writeFull_write_error:
  assumes "writeFull E dev s = Inr (ok, s')" "oplog s' = oplog s @ new"
    "n < length new" "write_failed (new ! n)"
  shows "\<not> ok \<and> Suc n = length new \<and> error_type s' AND Write E = Write E \<and>
     (\<exists>i j evs. i < length (file_infos s) \<and> j < length (f_blocks (file_infos s ! i)) \<and>
        events s' = events s @ evs @
          [writeFailed (b_abs_offset (f_blocks (file_infos s ! i) ! j))
             (b_size (f_blocks (file_infos s ! i) ! j))] \<and>
        (new ! n = QSeek (f_path (file_infos s ! i))
                     (b_rel_offset (f_blocks (file_infos s ! i) ! j)) False \<or>
         (\<exists>d m. blockData s (int i) (int j) = Inr d \<and>
            m \<noteq> b_size (f_blocks (file_infos s ! i) ! j) \<and>
            new ! n = QWrite (f_path (file_infos s ! i)) d m)))"
proof -
  have bad: "\<not> writer_good s s'"
    using assms(2,3,4) by (auto simp: writer_good_def)
  from writeFull_post[OF assms(1)] bad
  obtain s1 s2 e i j where nok: "\<not> ok" and g: "writer_good s s1"
    and st: "stepped E dev s1 e s2" and bf: "block_failure s i j e"
    and s': "s' = emit (writeFailed (b_abs_offset (f_blocks (file_infos s ! i) ! j))
                      (b_size (f_blocks (file_infos s ! i) ! j)))
                 (add_error (Write E) s2)"
    by (auto simp: writer_post_def)
  from g obtain pre evs where pre: "oplog s1 = oplog s @ pre" "events s1 = events s @ evs"
    "\<forall>x \<in> set pre. \<not> write_failed x"
    by (auto simp: writer_good_def)
  have log: "oplog s' = oplog s @ pre @ [e]"
    using stepped_fields(2)[OF st] pre by (simp add: s')
  then have new: "new = pre @ [e]" using assms(2) by simp
  have n: "n = length pre"
  proof (rule ccontr)
    assume "n \<noteq> length pre"
    then have "n < length pre" using assms(3) new by simp
    then have "new ! n \<in> set pre" by (simp add: new nth_append)
    then show False using pre(3) assms(4) by blast
  qed
  have ev: "events s' = events s @ evs @
          [writeFailed (b_abs_offset (f_blocks (file_infos s ! i) ! j))
             (b_size (f_blocks (file_infos s ! i) ! j))]"
    using stepped_fields(3)[OF st] pre by (simp add: s')
  have flag: "error_type s' AND Write E = Write E"
    using has_flag_simps(1)[of "Write E" s2] by (simp add: s' has_flag_def)
  have e: "new ! n = e" by (simp add: new n)
  show ?thesis
    using nok n new flag ev bf unfolding e block_failure_def by auto
qed

theorem writeFull_write_error_witness:
  "\<exists>s'. writeFull sim_Error sim_dev (sim_session sim_short) = Inr (False, s') \<and>
      oplog s' = [QSeek ''/mnt/CAPACITYTESTER0'' 0 True,
                  QWrite ''/mnt/CAPACITYTESTER0'' [48, 58, 48, 1] 3] \<and>
      error_type s' AND Write sim_Error = Write sim_Error \<and>
      (\<exists>evs. events s' = evs @ [writeFailed 0 4])"
proof -
  have "case writeFull sim_Error sim_dev (sim_session sim_short) of
          Inl a \<Rightarrow> False
        | Inr (ok, s') \<Rightarrow> \<not> ok \<and>
            oplog s' = [QSeek ''/mnt/CAPACITYTESTER0'' 0 True,
                        QWrite ''/mnt/CAPACITYTESTER0'' [48, 58, 48, 1] 3]"
    by code_simp
  then obtain s' where run: "writeFull sim_Error sim_dev (sim_session sim_short) = Inr (False, s')"
    and log: "oplog s' = [QSeek ''/mnt/CAPACITYTESTER0'' 0 True,
                          QWrite ''/mnt/CAPACITYTESTER0'' [48, 58, 48, 1] 3]"
    by (auto split: sum.splits)
  have log': "oplog s' = oplog (sim_session sim_short) @
      [QSeek ''/mnt/CAPACITYTESTER0'' 0 True, QWrite ''/mnt/CAPACITYTESTER0'' [48, 58, 48, 1] 3]"
    by (simp add: log sim_session_def)
  have "error_type s' AND Write sim_Error = Write sim_Error \<and>
        (\<exists>evs. events s' = evs @ [writeFailed 0 4])"
    using writeFull_write_error[OF run log', of 1]
    by (auto simp: write_failed_def sim_session_def less_Suc_eq blockData_def Let_def replace_def)
  then show ?thesis using run log by blast
qed

section \<open>Cancellation during the writer (C6)\<close>

lemma reaches_trans:
  assumes "reaches E dev s s1" "reaches E dev s1 s2"
  shows "reaches E dev s s2"
  using assms(2,1) by (induction rule: reaches.induct) (auto intro: reaches.intros)

lemma cancel_fields [simp]:
  "canceled (deliver E dev s) = (canceled s \<or> cancel_requested dev (env s))"
  "cancel_pos (deliver E dev s) =
     (if cancel_requested dev (env s)
      then (case cancel_pos s of None \<Rightarrow> Some (length (oplog s)) | Some n \<Rightarrow> Some n)
      else cancel_pos s)"
  "error_type (deliver E dev s) =
     (if cancel_requested dev (env s) then error_type s OR Aborted E else error_type s)"
  by (simp_all add: deliver_def cancel_def)

lemma stepped_cancel:
  assumes "stepped E dev s e s'" "cancel_wf E s"
  shows "cancel_wf E s'" "canceled s \<Longrightarrow> canceled s'"
    "writes_after_cancel s' =
       (if canceled s then writes_after_cancel s + (if is_write e then 1 else 0) else 0)"
  using assms
  by (auto simp: stepped_def cancel_wf_def writes_after_cancel_def has_flag_def or_and_absorb
      or_and_mono split: option.splits if_splits)

lemma stepped_cancel_pos:
  assumes "stepped E dev s e s'" "L \<le> length (oplog s)" "\<forall>n. cancel_pos s = Some n \<longrightarrow> L < n"
  shows "\<forall>n. cancel_pos s' = Some n \<longrightarrow> L < n"
  using assms by (auto simp: stepped_def split: option.splits if_splits)

lemma reaches_stepI: "stepped E dev s e s1 \<Longrightarrow> reaches E dev s s1"
  by (blast intro: reaches.intros)

lemma cancel_wf_emit [simp]: "cancel_wf E (emit sig s) = cancel_wf E s"
  by (simp add: cancel_wf_def)

lemma cancel_wf_add_error [simp]: "cancel_wf E s \<Longrightarrow> cancel_wf E (add_error x s)"
  by (simp add: cancel_wf_def)

lemma writes_after_cancel_simps [simp]:
  "writes_after_cancel (emit sig s) = writes_after_cancel s"
  "writes_after_cancel (add_error x s) = writes_after_cancel s"
  by (simp_all add: writes_after_cancel_def split: option.splits)

lemma reaches_cancel_wf: "reaches E dev s s' \<Longrightarrow> cancel_wf E s \<Longrightarrow> cancel_wf E s'"
  by (induction rule: reaches.induct) (auto intro: stepped_cancel(1))

lemma reaches_same_plan: "reaches E dev s s' \<Longrightarrow> same_plan s s'"
  by (induction rule: reaches.induct) (auto dest: stepped_fields(1) simp: same_plan_def)

lemma reaches_canceled: "reaches E dev s s' \<Longrightarrow> cancel_wf E s \<Longrightarrow> canceled s \<Longrightarrow> canceled s'"
  by (induction rule: reaches.induct) (auto intro: stepped_cancel(2) reaches_cancel_wf)


lemma reaches_seek:
  "seek_write E dev f pos d x s = (ok, s') \<Longrightarrow> reaches E dev s s'"
  "seek_read E dev f pos n d s = (ok, s') \<Longrightarrow> reaches E dev s s'"
  "seek_putChar E dev f pos b s = (ok, s') \<Longrightarrow> reaches E dev s s'"
  "seek_getChar E dev f pos b s = (ok, s') \<Longrightarrow> reaches E dev s s'"
  by (auto dest!: seek_write_cases seek_read_cases seek_putChar_cases seek_getChar_cases
      intro: reaches_stepI reaches_step[OF reaches_stepI])

lemma reaches_fsync: "reaches E dev s s1 \<Longrightarrow> reaches E dev s (do_fsync E dev p s1)"
  using stepped_fsync[OF refl, where E = E and dev = dev and p = p and s = s1]
  by (auto intro: reaches.intros)

lemma initialize_verify_reaches:
  assumes "initialize_verify E dev i s = (ok, s')"
  shows "reaches E dev s s'" "ok \<Longrightarrow> \<not> canceled s'"
  using assms unfolding initialize_verify_def Let_def abortRequested_def
  by (auto split: prod.splits bool.splits if_splits dest!: reaches_seek
      intro!: reaches_emit reaches_error elim: reaches_trans)

lemma initialize_create_reaches:
  assumes "initialize_create E dev i s = (ok, s')"
  shows "reaches E dev s s'"
  using assms unfolding initialize_create_def Let_def
  by (auto split: prod.splits bool.splits if_splits dest!: reaches_seek stepped_do reaches_stepI
      intro!: reaches_emit reaches_error)
     (meson reaches_trans)+

lemma initialize_file_reaches:
  assumes "initialize_file E dev i s = (ok, s')"
  shows "reaches E dev s s'" "ok \<Longrightarrow> \<not> canceled s'"
proof -
  obtain r1 s1 where c: "initialize_create E dev i s = (r1, s1)"
    by (cases "initialize_create E dev i s")
  have r1: "reaches E dev s s1" using c by (rule initialize_create_reaches)
  have "reaches E dev s s' \<and> (ok \<longrightarrow> \<not> canceled s')"
  proof (cases r1)
    case False
    then show ?thesis using assms c r1 by (simp add: initialize_file_def)
  next
    case True
    then have v: "initialize_verify E dev i s1 = (ok, s')"
      using assms c by (simp add: initialize_file_def)
    show ?thesis
      using reaches_trans[OF r1 initialize_verify_reaches(1)[OF v]]
        initialize_verify_reaches(2)[OF v] by simp
  qed
  then show "reaches E dev s s'" "ok \<Longrightarrow> \<not> canceled s'" by simp_all
qed

lemma initialize_reaches:
  assumes "initialize E dev s = (ok, s')"
  shows "reaches E dev s s'" "ok \<Longrightarrow> \<not> canceled s \<Longrightarrow> \<not> canceled s'"
proof -
  let ?R = "\<lambda>ok x. reaches E dev s x \<and> (ok \<longrightarrow> \<not> canceled s \<longrightarrow> \<not> canceled x)"
  obtain r1 s1 where 1: "for_each (initialize_file E dev) [0..<length (file_infos s)]
             (emit (initializationStarted (bytes_total s)) s) = (r1, s1)"
    by (cases "for_each (initialize_file E dev) [0..<length (file_infos s)]
             (emit (initializationStarted (bytes_total s)) s)")
  have p1: "?R r1 s1"
  proof (rule for_each_rule[where R = ?R, OF 1])
    show "?R True (emit (initializationStarted (bytes_total s)) s)"
      by (auto intro: reaches.intros)
  next
    fix i x r y
    assume R: "?R True x" and b: "initialize_file E dev i x = (r, y)"
    have "reaches E dev s y"
      using R initialize_file_reaches(1)[OF b] by (blast intro: reaches_trans)
    then show "?R r y"
      using initialize_file_reaches(2)[OF b] by simp
  qed
  have "?R ok s'"
  proof (cases r1)
    case False
    then show ?thesis using assms 1 p1 by (simp add: initialize_def)
  next
    case True
    then have 2: "for_each (initialize_verify E dev) [0..<length (file_infos s1)] s1 = (ok, s')"
      using assms 1 by (simp add: initialize_def)
    show ?thesis
    proof (rule for_each_rule[where R = ?R, OF 2])
      show "?R True s1" using p1 True by simp
    next
      fix i x r y
      assume R: "?R True x" and b: "initialize_verify E dev i x = (r, y)"
      have "reaches E dev s y"
        using R initialize_verify_reaches(1)[OF b] by (blast intro: reaches_trans)
      then show "?R r y"
        using initialize_verify_reaches(2)[OF b] by simp
    qed
  qed
  then show "reaches E dev s s'" "ok \<Longrightarrow> \<not> canceled s \<Longrightarrow> \<not> canceled s'" by auto
qed

lemma cancel_post_step2:
  assumes "cancel_wf E s1" "L \<le> length (oplog s1)" "\<forall>n. cancel_pos s1 = Some n \<longrightarrow> L < n"
    "writes_after_cancel s1 \<le> k" "stepped E dev s1 e s2"
  shows "cancel_wf E s2" "L \<le> length (oplog s2)" "\<forall>n. cancel_pos s2 = Some n \<longrightarrow> L < n"
    "writes_after_cancel s2 \<le> k + (if is_write e then 1 else 0)"
proof -
  show "cancel_wf E s2" by (rule stepped_cancel(1)[OF assms(5) assms(1)])
  show "L \<le> length (oplog s2)" using assms(2) by (simp add: stepped_fields(2)[OF assms(5)])
  show "\<forall>n. cancel_pos s2 = Some n \<longrightarrow> L < n"
    by (rule stepped_cancel_pos[OF assms(5) assms(2) assms(3)])
  show "writes_after_cancel s2 \<le> k + (if is_write e then 1 else 0)"
    using assms(4) by (simp add: stepped_cancel(3)[OF assms(5) assms(1)])
qed

lemma cancel_wf_not_canceled: "cancel_wf E s \<Longrightarrow> \<not> canceled s \<Longrightarrow> writes_after_cancel s = 0"
  by (simp add: cancel_wf_def writes_after_cancel_def)

lemma writeFull_block_cancel:
  assumes run: "writeFull_block E dev i j s1 = Inr (ok, s2)" and cp: "cancel_post E L True s1"
  shows "cancel_post E L ok s2" "ok \<Longrightarrow> \<not> canceled s2"
proof -
  define fl where "fl = f_path (file_infos s1 ! i)"
  define blk where "blk = f_blocks (file_infos s1 ! i) ! j"
  from run obtain d where bd: "blockData s1 (int i) (int j) = Inr d"
    by (auto simp: writeFull_block_def Let_def split: sum.splits)
  obtain w sw where sw: "seek_write E dev fl (b_rel_offset blk) d (b_size blk) s1 = (w, sw)"
    by (cases "seek_write E dev fl (b_rel_offset blk) d (b_size blk) s1")
  have res: "(\<not> w \<and> \<not> ok \<and> s2 = emit (writeFailed (b_abs_offset blk) (b_size blk)) (add_error (Write E) sw)) \<or>
             (w \<and> s2 = emit (written (b_abs_end blk)) (do_fsync E dev fl sw) \<and> ok = (\<not> canceled s2))"
    using run bd sw
    by (auto simp: writeFull_block_def Let_def fl_def blk_def abortRequested_def
        split: if_splits bool.splits)
  have cp0: "cancel_wf E s1" "L \<le> length (oplog s1)" "\<forall>n. cancel_pos s1 = Some n \<longrightarrow> L < n"
    "writes_after_cancel s1 \<le> 0"
    using cp by (simp_all add: cancel_post_def)
  have sw_facts: "cancel_wf E sw \<and> L \<le> length (oplog sw) \<and> (\<forall>n. cancel_pos sw = Some n \<longrightarrow> L < n) \<and>
      writes_after_cancel sw \<le> 1"
    using seek_write_cases[OF sw]
  proof (elim disjE conjE exE)
    assume "stepped E dev s1 (QSeek fl (b_rel_offset blk) False) sw"
    from cancel_post_step2[OF cp0 this] show ?thesis by (simp add: is_write_def)
  next
    fix sk n
    assume st1: "stepped E dev s1 (QSeek fl (b_rel_offset blk) True) sk"
      and st2: "stepped E dev sk (QWrite fl d n) sw"
    from cancel_post_step2[OF cp0 st1]
    have "cancel_wf E sk" "L \<le> length (oplog sk)" "\<forall>n. cancel_pos sk = Some n \<longrightarrow> L < n"
      "writes_after_cancel sk \<le> 0" by (simp_all add: is_write_def)
    from cancel_post_step2[OF this st2] show ?thesis by (simp add: is_write_def)
  qed
  have fs_facts: "cancel_wf E (do_fsync E dev fl sw) \<and> L \<le> length (oplog (do_fsync E dev fl sw)) \<and>
      (\<forall>n. cancel_pos (do_fsync E dev fl sw) = Some n \<longrightarrow> L < n) \<and>
      writes_after_cancel (do_fsync E dev fl sw) \<le> 1"
    using stepped_fsync[OF refl, where E = E and dev = dev and p = fl and s = sw]
  proof (elim disjE conjE)
    assume "do_fsync E dev fl sw = sw"
    then show ?thesis using sw_facts by simp
  next
    assume st: "stepped E dev sw (QFsync fl) (do_fsync E dev fl sw)"
    from sw_facts have "cancel_wf E sw" "L \<le> length (oplog sw)"
      "\<forall>n. cancel_pos sw = Some n \<longrightarrow> L < n" "writes_after_cancel sw \<le> 1" by simp_all
    from cancel_post_step2[OF this st] show ?thesis by (simp add: is_write_def)
  qed
  from res show "cancel_post E L ok s2"
  proof (elim disjE conjE)
    assume "\<not> ok" "s2 = emit (writeFailed (b_abs_offset blk) (b_size blk)) (add_error (Write E) sw)"
    then show ?thesis using sw_facts by (simp add: cancel_post_def)
  next
    assume s2: "s2 = emit (written (b_abs_end blk)) (do_fsync E dev fl sw)" and ok: "ok = (\<not> canceled s2)"
    have wf2: "cancel_wf E s2" using fs_facts by (simp add: s2)
    have "ok \<Longrightarrow> writes_after_cancel s2 = 0"
      using cancel_wf_not_canceled[OF wf2] ok by simp
    then show ?thesis using fs_facts wf2 by (auto simp: cancel_post_def s2)
  qed
  from res show "ok \<Longrightarrow> \<not> canceled s2" by auto
qed


lemma for_each_a_rule_last:
  assumes "for_each_a body is s1 = Inr (True, s')" "is \<noteq> []" "R True s1"
    and "\<And>i x r y. i \<in> set is \<Longrightarrow> R True x \<Longrightarrow> body i x = Inr (r, y) \<Longrightarrow> R r y"
    and "\<And>i x y. i \<in> set is \<Longrightarrow> R True x \<Longrightarrow> body i x = Inr (True, y) \<Longrightarrow> P y"
  shows "P s'"
  using assms
proof (induction "is" arbitrary: s1)
  case Nil
  then show ?case by simp
next
  case (Cons i "is")
  from Cons.prems(1) obtain r1 s2 where b: "body i s1 = Inr (r1, s2)"
    by (cases "body i s1") (auto split: prod.splits)
  have r1: "r1" using Cons.prems(1) b by (cases r1) auto
  have run: "for_each_a body is s2 = Inr (True, s')" using Cons.prems(1) b r1 by simp
  have R2: "R True s2" using Cons.prems(4)[OF _ Cons.prems(3) b] r1 by simp
  show ?case
  proof (cases "is = []")
    case True
    then have "s' = s2" using run by simp
    moreover have "P s2" using Cons.prems(5)[of i s1 s2] Cons.prems(3) b r1 by simp
    ultimately show ?thesis by simp
  next
    case False
    have s4: "R r y" if "j \<in> set is" "R True x" "body j x = Inr (r, y)" for j x r y
      using that Cons.prems(4)[of j x r y] by simp
    have s5: "P y" if "j \<in> set is" "R True x" "body j x = Inr (True, y)" for j x y
      using that Cons.prems(5)[of j x y] by simp
    show ?thesis by (rule Cons.IH[OF run False R2 s4 s5])
  qed
qed

lemma writeFull_file_cancel:
  assumes run: "writeFull_file E dev i s1 = Inr (ok, s2)" and cp: "cancel_post E L True s1"
  shows "cancel_post E L ok s2"
    "f_blocks (file_infos s1 ! i) \<noteq> [] \<Longrightarrow> ok \<Longrightarrow> \<not> canceled s2"
proof -
  define sf where "sf = do_fsync E dev (f_path (file_infos s1 ! i)) s1"
  have run': "for_each_a (writeFull_block E dev i) [0..<length (f_blocks (file_infos s1 ! i))] sf
                = Inr (ok, s2)"
    using run by (simp add: writeFull_file_def Let_def sf_def)
  have cp0: "cancel_wf E s1" "L \<le> length (oplog s1)" "\<forall>n. cancel_pos s1 = Some n \<longrightarrow> L < n"
    "writes_after_cancel s1 \<le> 0"
    using cp by (simp_all add: cancel_post_def)
  have cpf: "cancel_post E L True sf"
    using stepped_fsync[OF refl, where E = E and dev = dev and p = "f_path (file_infos s1 ! i)" and s = s1]
  proof (elim disjE conjE)
    assume "do_fsync E dev (f_path (file_infos s1 ! i)) s1 = s1"
    then show ?thesis using cp by (simp add: sf_def)
  next
    assume "stepped E dev s1 (QFsync (f_path (file_infos s1 ! i)))
              (do_fsync E dev (f_path (file_infos s1 ! i)) s1)"
    from cancel_post_step2[OF cp0 this] show ?thesis
      by (simp add: cancel_post_def sf_def is_write_def)
  qed
  show "cancel_post E L ok s2"
    by (rule for_each_a_rule[where R = "cancel_post E L", OF run' cpf])
       (rule writeFull_block_cancel(1))
  show "\<not> canceled s2" if ne: "f_blocks (file_infos s1 ! i) \<noteq> []" and ok: ok
  proof (rule for_each_a_rule_last[where R = "cancel_post E L" and P = "\<lambda>y. \<not> canceled y",
        OF run'[unfolded eqTrueI[OF ok]] _ cpf])
    show "[0..<length (f_blocks (file_infos s1 ! i))] \<noteq> []" using ne by simp
  next
    fix j x r y
    assume "cancel_post E L True x" "writeFull_block E dev i j x = Inr (r, y)"
    then show "cancel_post E L r y" by (rule writeFull_block_cancel(1)[rotated])
  next
    fix j x y
    assume "cancel_post E L True x" "writeFull_block E dev i j x = Inr (True, y)"
    then show "\<not> canceled y" using writeFull_block_cancel(2)[of E dev i j x True y L] by simp
  qed
qed

lemma writeFull_cancel:
  assumes run: "writeFull E dev s = Inr (ok, s')"
    and wf: "cancel_wf E s" and nc: "\<not> canceled s"
    and ne: "\<forall>f \<in> set (file_infos s). f_blocks f \<noteq> []"
  shows "cancel_post E (length (oplog s)) ok s'" "ok \<Longrightarrow> \<not> canceled s'"
proof -
  let ?L = "length (oplog s)"
  let ?R = "\<lambda>ok x. cancel_post E ?L ok x \<and> same_plan s x"
  have run': "for_each_a (writeFull_file E dev) [0..<length (file_infos s)] (emit writeStarted s)
                = Inr (ok, s')"
    using run by (simp add: writeFull_def)
  have none: "cancel_pos s = None" using wf nc by (simp add: cancel_wf_def)
  have init: "?R True (emit writeStarted s)"
    using wf none by (simp add: cancel_post_def writes_after_cancel_def)
  have step: "?R r y" if "?R True x" "writeFull_file E dev i x = Inr (r, y)" for i x r y
    using that writeFull_file_cancel(1)[of E dev i x r y ?L] same_plan_writeFull_file[of E dev i x r y]
    by (auto intro: same_plan_trans)
  have "?R ok s'"
    by (rule for_each_a_rule[where R = ?R, OF run' init]) (rule step)
  then show "cancel_post E ?L ok s'" by simp
  show "\<not> canceled s'" if ok: ok
  proof (cases "file_infos s = []")
    case True
    then have "s' = emit writeStarted s" using run' by simp
    then show ?thesis using nc by simp
  next
    case False
    show ?thesis
    proof (rule for_each_a_rule_last[where R = ?R and P = "\<lambda>y. \<not> canceled y",
          OF run'[unfolded eqTrueI[OF ok]] _ init])
      show "[0..<length (file_infos s)] \<noteq> []" using False by simp
    next
      fix i x r y
      assume "?R True x" "writeFull_file E dev i x = Inr (r, y)"
      then show "?R r y" by (rule step)
    next
      fix i x y
      assume i: "i \<in> set [0..<length (file_infos s)]" and R: "?R True x"
        and b: "writeFull_file E dev i x = Inr (True, y)"
      have "file_infos x = file_infos s" using R by (simp add: same_plan_def)
      then have "f_blocks (file_infos x ! i) \<noteq> []" using ne i by simp
      then show "\<not> canceled y"
        using writeFull_file_cancel(2)[OF b, of ?L] R by simp
    qed
  qed
qed

lemma start_run_failed:
  assumes "start_tests E dev s = Inr (False, s2)"
  shows "\<exists>s3 rs. start_run E dev s = Inr s3 \<and>
           events s3 = events s2 @ [failed (Some (error_type s2)), finished] \<and>
           file_infos s3 = [] \<and> pattern s3 = pattern s \<and> length rs = length (file_infos s) \<and>
           oplog s3 = oplog s2 @ map (\<lambda>(f, r). QRemove (f_path f) r) (zip (rev (file_infos s)) rs)"
proof -
  have sp: "file_infos s2 = file_infos s" "pattern s2 = pattern s"
    using same_plan_start_tests[OF assms] by (simp_all add: same_plan_def)
  show ?thesis
    using deleteFiles_spec[of E dev "emit finished (emit (failed (Some (error_type s2))) s2)"]
    by (auto simp: start_run_def assms start_finish_def sp)
qed

lemma start_run_succeeded:
  assumes "start_tests E dev s = Inr (True, s2)"
  shows "\<exists>s3 rs. start_run E dev s = Inr s3 \<and>
           events s3 = events s2 @ [succeeded, finished] \<and>
           file_infos s3 = [] \<and> pattern s3 = pattern s \<and> length rs = length (file_infos s) \<and>
           oplog s3 = oplog s2 @ map (\<lambda>(f, r). QRemove (f_path f) r) (zip (rev (file_infos s)) rs)"
proof -
  have sp: "file_infos s2 = file_infos s" "pattern s2 = pattern s"
    using same_plan_start_tests[OF assms] by (simp_all add: same_plan_def)
  show ?thesis
    using deleteFiles_spec[of E dev "emit finished (emit succeeded s2)"]
    by (auto simp: start_run_def assms start_finish_def sp)
qed

section \<open>The trailer byte (C4)\<close>

lemma stepped_log: "stepped E dev s e s' \<Longrightarrow> oplog s' = oplog s @ [e] \<and> events s' = events s \<and> file_infos s' = file_infos s"
  using stepped_fields[of E dev s e s'] by (simp add: same_plan_def)

lemma initialize_verify_cases:
  assumes run: "initialize_verify E dev i s = (ok, s')"
  defines "fi \<equiv> file_infos s ! i"
  defines "p \<equiv> f_path (file_infos s ! i)"
  defines "last_pos \<equiv> to_int (f_size (file_infos s ! i) - 1)"
  shows "file_infos s' = file_infos s \<and>
    ((\<exists>new. oplog s' = oplog s @ new \<and>
        (new = [QSeek p last_pos False] \<or>
         (\<exists>c. c \<noteq> Some byte_fe \<and> new = [QSeek p last_pos True, QGetChar p c]) \<or>
         new = [QSeek p last_pos True, QGetChar p (Some byte_fe), QSeek p 0 False] \<or>
         (\<exists>d. d \<noteq> f_id fi \<and>
            new = [QSeek p last_pos True, QGetChar p (Some byte_fe), QSeek p 0 True,
                   QRead p (int (length (f_id fi))) d])) \<and>
        \<not> ok \<and> has_flag (Verify E) s' \<and>
        events s' = events s @ [verifyFailed (f_offset fi) (f_size fi)]) \<or>
     (oplog s' = oplog s @ [QSeek p last_pos True, QGetChar p (Some byte_fe), QSeek p 0 True,
                            QRead p (int (length (f_id fi))) (f_id fi)] \<and>
      events s' = events s \<and> ok = (\<not> canceled s')))"
proof -
  obtain g sg where g: "seek_getChar E dev p last_pos byte_fe s = (g, sg)"
    by (cases "seek_getChar E dev p last_pos byte_fe s")
  show ?thesis
  proof (cases g)
    case False
    then have s': "s' = emit (verifyFailed (f_offset fi) (f_size fi)) (add_error (Verify E) sg)"
      and nok: "\<not> ok"
      using run g by (auto simp: initialize_verify_def Let_def fi_def p_def last_pos_def)
    from seek_getChar_cases[OF g] False
    have "(oplog sg = oplog s @ [QSeek p last_pos False] \<or>
           (\<exists>c. c \<noteq> Some byte_fe \<and> oplog sg = oplog s @ [QSeek p last_pos True, QGetChar p c])) \<and>
          events sg = events s \<and> file_infos sg = file_infos s"
      by (auto dest!: stepped_log)
    then show ?thesis using s' nok by auto
  next
    case True
    from seek_getChar_cases[OF g] True
    have lg: "oplog sg = oplog s @ [QSeek p last_pos True, QGetChar p (Some byte_fe)]"
      "events sg = events s" "file_infos sg = file_infos s"
      by (auto dest!: stepped_log)
    obtain r sr where r: "seek_read E dev p 0 (int (length (f_id fi))) (f_id fi) sg = (r, sr)"
      by (cases "seek_read E dev p 0 (int (length (f_id fi))) (f_id fi) sg")
    show ?thesis
    proof (cases r)
      case False
      then have s': "s' = emit (verifyFailed (f_offset fi) (f_size fi)) (add_error (Verify E) sr)"
        and nok: "\<not> ok"
        using run g True r by (auto simp: initialize_verify_def Let_def fi_def p_def last_pos_def)
      from seek_read_cases[OF r] False
      have "(oplog sr = oplog sg @ [QSeek p 0 False] \<or>
             (\<exists>d. d \<noteq> f_id fi \<and> oplog sr = oplog sg @ [QSeek p 0 True, QRead p (int (length (f_id fi))) d])) \<and>
            events sr = events sg \<and> file_infos sr = file_infos sg"
        by (auto dest!: stepped_log)
      then show ?thesis using s' nok lg by auto
    next
      case rT: True
      then have s': "s' = sr" and ok: "ok = (\<not> canceled sr)"
        using run g True r
        by (auto simp: initialize_verify_def Let_def fi_def p_def last_pos_def abortRequested_def
            split: if_splits)
      from seek_read_cases[OF r] rT
      have "oplog sr = oplog sg @ [QSeek p 0 True, QRead p (int (length (f_id fi))) (f_id fi)] \<and>
            events sr = events sg \<and> file_infos sr = file_infos sg"
        by (auto dest!: stepped_log)
      then show ?thesis using s' ok lg by auto
    qed
  qed
qed


lemma initialize_create_cases:
  assumes run: "initialize_create E dev i s = (ok, s')"
  defines "fi \<equiv> file_infos s ! i"
  defines "p \<equiv> f_path (file_infos s ! i)"
  defines "last_pos \<equiv> to_int (f_size (file_infos s ! i) - 1)"
  shows "file_infos s' = file_infos s \<and>
    (\<exists>new. oplog s' = oplog s @ new \<and> (\<forall>e \<in> set new. trailer_call p e) \<and>
       (ok \<longrightarrow> (\<exists>perm. new = [QOpen p True perm, QSeek p 0 True,
                                 QWrite p (f_id fi) (int (length (f_id fi))),
                                 QResize p (f_size fi) True, QSeek p last_pos True,
                                 QPutChar p byte_fe True]) \<and>
               events s' = events s @ [initialized (f_end fi)]))"
proof -
  obtain opened perm so where o: "do_open E dev p s = ((opened, perm), so)"
    by (cases "do_open E dev p s") auto
  have lo: "oplog so = oplog s @ [QOpen p opened perm]" "events so = events s"
    "file_infos so = file_infos s"
    using stepped_do(1)[OF o] by (auto dest!: stepped_log)
  show ?thesis
  proof (cases opened)
    case False
    then have "\<not> ok" "file_infos s' = file_infos so" "oplog s' = oplog so"
      using run o by (auto simp: initialize_create_def Let_def p_def fi_def)
    then show ?thesis using lo by (simp add: trailer_call_def)
  next
    case True
    obtain w sw where w: "seek_write E dev p 0 (f_id fi) (int (length (f_id fi))) so = (w, sw)"
      by (cases "seek_write E dev p 0 (f_id fi) (int (length (f_id fi))) so")
    from seek_write_cases[OF w]
    have lw: "file_infos sw = file_infos so \<and> events sw = events so \<and>
        (\<exists>new. oplog sw = oplog so @ new \<and> (\<forall>e \<in> set new. trailer_call p e) \<and>
           (w \<longrightarrow> new = [QSeek p 0 True, QWrite p (f_id fi) (int (length (f_id fi)))]))"
      by (auto dest!: stepped_log simp: trailer_call_def)
    then obtain nw where nw: "oplog sw = oplog so @ nw" "\<forall>e \<in> set nw. trailer_call p e"
      "w \<longrightarrow> nw = [QSeek p 0 True, QWrite p (f_id fi) (int (length (f_id fi)))]"
      by blast
    show ?thesis
    proof (cases w)
      case False
      then have "\<not> ok" "file_infos s' = file_infos sw" "oplog s' = oplog sw"
        using run o True w by (auto simp: initialize_create_def Let_def p_def fi_def)
      then show ?thesis using lo lw nw by (simp add: trailer_call_def)
    next
      case wT: True
      then have lw': "oplog sw = oplog so @ [QSeek p 0 True, QWrite p (f_id fi) (int (length (f_id fi)))]"
        "file_infos sw = file_infos so" "events sw = events so"
        using lw nw by auto
      obtain rz sz where z: "do_resize E dev p (f_size fi) sw = (rz, sz)"
        by (cases "do_resize E dev p (f_size fi) sw")
      have lz: "oplog sz = oplog sw @ [QResize p (f_size fi) rz]" "events sz = events sw"
        "file_infos sz = file_infos sw"
        using stepped_do(4)[OF z] by (auto dest!: stepped_log)
      show ?thesis
      proof (cases rz)
        case False
        then have "\<not> ok" "file_infos s' = file_infos sz" "oplog s' = oplog sz"
          using run o True w wT z by (auto simp: initialize_create_def Let_def p_def fi_def)
        then show ?thesis using lo lw' lz by (simp add: trailer_call_def)
      next
        case zT: True
        obtain c sc where c: "seek_putChar E dev p last_pos byte_fe sz = (c, sc)"
          by (cases "seek_putChar E dev p last_pos byte_fe sz")
        from seek_putChar_cases[OF c]
        have lc: "file_infos sc = file_infos sz \<and> events sc = events sz \<and>
            (\<exists>new. oplog sc = oplog sz @ new \<and> (\<forall>e \<in> set new. trailer_call p e) \<and>
               (c \<longrightarrow> new = [QSeek p last_pos True, QPutChar p byte_fe True]))"
          by (auto dest!: stepped_log simp: trailer_call_def)
        then obtain nc where nc: "oplog sc = oplog sz @ nc" "\<forall>e \<in> set nc. trailer_call p e"
          "c \<longrightarrow> nc = [QSeek p last_pos True, QPutChar p byte_fe True]"
          by blast
        have s': "file_infos s' = file_infos sc" "oplog s' = oplog sc" "ok = c"
          "c \<Longrightarrow> events s' = events sc @ [initialized (f_end fi)]"
          using run o True w wT z zT c
          by (auto simp: initialize_create_def Let_def p_def fi_def last_pos_def split: bool.splits)
        have log: "oplog s' = oplog s @ ([QOpen p True perm, QSeek p 0 True,
            QWrite p (f_id fi) (int (length (f_id fi))), QResize p (f_size fi) True] @ nc)"
          using s'(2) nc(1) lz(1) lw'(1) lo(1) True zT by simp
        have tc: "\<forall>e \<in> set ([QOpen p True perm, QSeek p 0 True,
            QWrite p (f_id fi) (int (length (f_id fi))), QResize p (f_size fi) True] @ nc).
              trailer_call p e"
          using nc(2) by (simp add: trailer_call_def)
        have fin: "ok \<longrightarrow> (\<exists>perm'. [QOpen p True perm, QSeek p 0 True,
            QWrite p (f_id fi) (int (length (f_id fi))), QResize p (f_size fi) True] @ nc =
              [QOpen p True perm', QSeek p 0 True,
               QWrite p (f_id fi) (int (length (f_id fi))),
               QResize p (f_size fi) True, QSeek p last_pos True,
               QPutChar p byte_fe True]) \<and>
            events s' = events s @ [initialized (f_end fi)]"
          using s'(3,4) nc(3) lc lz(2) lw'(3) lo(2) by simp
        have "file_infos s' = file_infos s"
          using s'(1) lc lz(3) lw'(2) lo(3) by simp
        then show ?thesis using log tc fin by blast
      qed
    qed
  qed
qed


text \<open>
  C4 (as amended: the sentinel is 254). For every file of the plan and every environment,
  whatever \<open>initialize\<close> writes with \<open>putChar\<close> is the byte 254, to that file. When the
  file passes, the calls are exactly: open, seek to 0 and write the tag, resize to the
  planned size, seek to the last byte and put 254, and at once seek to the last byte again
  and get it back as 254, then seek to 0 and read the tag. When the byte read back is not
  254, the file fails: the \<open>Verify\<close> bit is set and the last signal is \<open>verifyFailed\<close>
  with the file's offset and size.
\<close>

theorem initialize_file_trailer:
  assumes "initialize_file E dev i s = (ok, s')"
  shows "\<exists>new. oplog s' = oplog s @ new \<and>
     (\<forall>q b r. QPutChar q b r \<in> set new \<longrightarrow> q = f_path (file_infos s ! i) \<and> b = 254) \<and>
     (\<forall>q c. QGetChar q c \<in> set new \<and> c \<noteq> Some 254 \<longrightarrow>
        \<not> ok \<and> error_type s' AND Verify E = Verify E \<and>
        (\<exists>evs. events s' = evs @ [verifyFailed (f_offset (file_infos s ! i)) (f_size (file_infos s ! i))])) \<and>
     (ok \<longrightarrow>
        (\<exists>perm. new =
           [QOpen (f_path (file_infos s ! i)) True perm,
            QSeek (f_path (file_infos s ! i)) 0 True,
            QWrite (f_path (file_infos s ! i)) (f_id (file_infos s ! i))
              (int (length (f_id (file_infos s ! i)))),
            QResize (f_path (file_infos s ! i)) (f_size (file_infos s ! i)) True,
            QSeek (f_path (file_infos s ! i)) (to_int (f_size (file_infos s ! i) - 1)) True,
            QPutChar (f_path (file_infos s ! i)) 254 True,
            QSeek (f_path (file_infos s ! i)) (to_int (f_size (file_infos s ! i) - 1)) True,
            QGetChar (f_path (file_infos s ! i)) (Some 254),
            QSeek (f_path (file_infos s ! i)) 0 True,
            QRead (f_path (file_infos s ! i)) (int (length (f_id (file_infos s ! i))))
              (f_id (file_infos s ! i))]))"
proof -
  define fi where "fi = file_infos s ! i"
  define p where "p = f_path fi"
  define lp where "lp = to_int (f_size fi - 1)"
  obtain r1 s1 where c: "initialize_create E dev i s = (r1, s1)"
    by (cases "initialize_create E dev i s")
  from initialize_create_cases[OF c]
  obtain nc where fi1: "file_infos s1 = file_infos s" and nc: "oplog s1 = oplog s @ nc"
    "\<forall>e \<in> set nc. trailer_call p e"
    "r1 \<longrightarrow> (\<exists>perm. nc = [QOpen p True perm, QSeek p 0 True,
                                 QWrite p (f_id fi) (int (length (f_id fi))),
                                 QResize p (f_size fi) True, QSeek p lp True,
                                 QPutChar p byte_fe True])"
    unfolding fi_def p_def lp_def by blast
  have put_nc: "q = p \<and> b = 254" if "QPutChar q b r \<in> set nc" for q b r
    using nc(2) that by (auto simp: trailer_call_def byte_fe_def)
  have get_nc: "QGetChar q c \<notin> set nc" for q c
    using nc(2) by (auto simp: trailer_call_def)
  show ?thesis
  proof (cases r1)
    case False
    then have "s' = s1" "\<not> ok" using assms c by (auto simp: initialize_file_def)
    then show ?thesis
      using nc(1) put_nc get_nc unfolding p_def fi_def by blast
  next
    case True
    then have v: "initialize_verify E dev i s1 = (ok, s')"
      using assms c by (simp add: initialize_file_def)
    from True nc(3) obtain perm where ncT: "nc = [QOpen p True perm, QSeek p 0 True,
                                 QWrite p (f_id fi) (int (length (f_id fi))),
                                 QResize p (f_size fi) True, QSeek p lp True,
                                 QPutChar p byte_fe True]"
      by blast
    from initialize_verify_cases[OF v, unfolded fi1]
    have "(\<exists>new. oplog s' = oplog s1 @ new \<and>
        (new = [QSeek p lp False] \<or>
         (\<exists>c. c \<noteq> Some byte_fe \<and> new = [QSeek p lp True, QGetChar p c]) \<or>
         new = [QSeek p lp True, QGetChar p (Some byte_fe), QSeek p 0 False] \<or>
         (\<exists>d. d \<noteq> f_id fi \<and>
            new = [QSeek p lp True, QGetChar p (Some byte_fe), QSeek p 0 True,
                   QRead p (int (length (f_id fi))) d])) \<and>
        \<not> ok \<and> has_flag (Verify E) s' \<and>
        events s' = events s1 @ [verifyFailed (f_offset fi) (f_size fi)]) \<or>
     (oplog s' = oplog s1 @ [QSeek p lp True, QGetChar p (Some byte_fe), QSeek p 0 True,
                            QRead p (int (length (f_id fi))) (f_id fi)] \<and>
      events s' = events s1 \<and> ok = (\<not> canceled s'))"
      unfolding fi_def p_def lp_def by blast
    then consider
      (fail) nv where "oplog s' = oplog s1 @ nv" "\<not> ok" "has_flag (Verify E) s'"
        "events s' = events s1 @ [verifyFailed (f_offset fi) (f_size fi)]"
        "nv = [QSeek p lp False] \<or>
         (\<exists>c. c \<noteq> Some byte_fe \<and> nv = [QSeek p lp True, QGetChar p c]) \<or>
         nv = [QSeek p lp True, QGetChar p (Some byte_fe), QSeek p 0 False] \<or>
         (\<exists>d. d \<noteq> f_id fi \<and>
            nv = [QSeek p lp True, QGetChar p (Some byte_fe), QSeek p 0 True,
                   QRead p (int (length (f_id fi))) d])"
    | (pass) "oplog s' = oplog s1 @ [QSeek p lp True, QGetChar p (Some byte_fe), QSeek p 0 True,
                            QRead p (int (length (f_id fi))) (f_id fi)]"
      by blast
    then show ?thesis
    proof cases
      case fail
      note nv = fail(1) and nok = fail(2) and fl = fail(3) and ev = fail(4) and shape = fail(5)
      have put_nv: "QPutChar q b r \<notin> set nv" for q b r
        using shape by auto
      have log: "oplog s' = oplog s @ (nc @ nv)" using nv nc(1) by simp
      have put: "\<forall>q b r. QPutChar q b r \<in> set (nc @ nv) \<longrightarrow> q = p \<and> b = 254"
        using put_nc put_nv by auto
      have get: "\<forall>q c. QGetChar q c \<in> set (nc @ nv) \<and> c \<noteq> Some 254 \<longrightarrow>
          \<not> ok \<and> error_type s' AND Verify E = Verify E \<and>
          (\<exists>evs. events s' = evs @ [verifyFailed (f_offset fi) (f_size fi)])"
        using nok fl ev by (auto simp: has_flag_def)
      show ?thesis
        using log put get nok unfolding p_def fi_def by blast
    next
      case pass
      note nv = pass
      have log: "oplog s' = oplog s @ [QOpen p True perm, QSeek p 0 True,
            QWrite p (f_id fi) (int (length (f_id fi))), QResize p (f_size fi) True,
            QSeek p lp True, QPutChar p 254 True, QSeek p lp True, QGetChar p (Some 254),
            QSeek p 0 True, QRead p (int (length (f_id fi))) (f_id fi)]"
        using nv nc(1) ncT by (simp add: byte_fe_def)
      show ?thesis
        unfolding log p_def[symmetric] fi_def[symmetric] lp_def[symmetric]
        apply (rule exI[of _ "[QOpen p True perm, QSeek p 0 True,
            QWrite p (f_id fi) (int (length (f_id fi))), QResize p (f_size fi) True,
            QSeek p lp True, QPutChar p 254 True, QSeek p lp True, QGetChar p (Some 254),
            QSeek p 0 True, QRead p (int (length (f_id fi))) (f_id fi)]"])
        apply (simp add: p_def)
        done
    qed
  qed
qed


theorem initialize_file_trailer_witness:
  "\<exists>s' perm. initialize_file sim_Error sim_dev 0 (sim_session sim_volume) = (True, s') \<and>
     oplog s' =
       [QOpen ''/mnt/CAPACITYTESTER0'' True perm, QSeek ''/mnt/CAPACITYTESTER0'' 0 True,
        QWrite ''/mnt/CAPACITYTESTER0'' [48, 1] 2, QResize ''/mnt/CAPACITYTESTER0'' 5 True,
        QSeek ''/mnt/CAPACITYTESTER0'' 4 True, QPutChar ''/mnt/CAPACITYTESTER0'' 254 True,
        QSeek ''/mnt/CAPACITYTESTER0'' 4 True, QGetChar ''/mnt/CAPACITYTESTER0'' (Some 254),
        QSeek ''/mnt/CAPACITYTESTER0'' 0 True, QRead ''/mnt/CAPACITYTESTER0'' 2 [48, 1]]"
proof -
  have "fst (initialize_file sim_Error sim_dev 0 (sim_session sim_volume))"
    by code_simp
  then obtain s' where run: "initialize_file sim_Error sim_dev 0 (sim_session sim_volume) = (True, s')"
    by (cases "initialize_file sim_Error sim_dev 0 (sim_session sim_volume)") auto
  from initialize_file_trailer[OF run] show ?thesis
    using run by (auto simp: sim_session_def to_int_def)
qed

text \<open>
  C4 as stated fails: on the simulated volume the file passes its quick test, and the byte
  written at the last position and read back there is 254, not 255.
\<close>

theorem initialize_file_trailer_counterexample:
  "fst (initialize_file sim_Error sim_dev 0 (sim_session sim_volume)) \<and>
   oplog (snd (initialize_file sim_Error sim_dev 0 (sim_session sim_volume))) =
     [QOpen ''/mnt/CAPACITYTESTER0'' True False, QSeek ''/mnt/CAPACITYTESTER0'' 0 True,
      QWrite ''/mnt/CAPACITYTESTER0'' [48, 1] 2, QResize ''/mnt/CAPACITYTESTER0'' 5 True,
      QSeek ''/mnt/CAPACITYTESTER0'' 4 True, QPutChar ''/mnt/CAPACITYTESTER0'' 254 True,
      QSeek ''/mnt/CAPACITYTESTER0'' 4 True, QGetChar ''/mnt/CAPACITYTESTER0'' (Some 254),
      QSeek ''/mnt/CAPACITYTESTER0'' 0 True, QRead ''/mnt/CAPACITYTESTER0'' 2 [48, 1]] \<and>
   byte_fe \<noteq> 255"
  by code_simp

section \<open>The same data is written and verified (C2)\<close>

lemma logged_refl [simp]: "logged P s s"
  by (simp add: logged_def)

lemma logged_emit [simp]: "logged P s (emit sig s') = logged P s s'"
  by (simp add: logged_def)

lemma logged_add_error [simp]: "logged P s (add_error x s') = logged P s s'"
  by (simp add: logged_def)

lemma logged_stepped:
  assumes "logged P s s1" "stepped E dev s1 e s2" "P e"
  shows "logged P s s2"
  using assms stepped_fields[OF assms(2)]
  by (auto simp: logged_def same_plan_def)

lemma logged_fsync:
  assumes "logged P s s1" "P (QFsync p)"
  shows "logged P s (do_fsync E dev p s1)"
  using stepped_fsync[OF refl, where E = E and dev = dev and p = p and s = s1] assms
  by (auto intro: logged_stepped)

lemma logged_plan: "logged P s s' \<Longrightarrow> same_plan s s'"
  by (simp add: logged_def)

lemma for_each_a_total:
  assumes "I s1"
    and "\<And>i x. i \<in> set is \<Longrightarrow> I x \<Longrightarrow> \<exists>r y. body i x = Inr (r, y) \<and> I y"
  shows "\<exists>r y. for_each_a body is s1 = Inr (r, y) \<and> I y"
  using assms
proof (induction "is" arbitrary: s1)
  case Nil
  then show ?case by auto
next
  case (Cons i "is")
  from Cons.prems(2)[of i s1] Cons.prems(1)
  obtain r1 s2 where b: "body i s1 = Inr (r1, s2)" and I2: "I s2" by auto
  have st: "\<exists>r y. body j x = Inr (r, y) \<and> I y" if "j \<in> set is" "I x" for j x
    using that Cons.prems(2)[of j x] by simp
  show ?case
  proof (cases r1)
    case False
    then show ?thesis using b I2 by auto
  next
    case True
    then show ?thesis using b Cons.IH[OF I2 st] by auto
  qed
qed

lemma blockData_total:
  assumes "planned s" "i < length (file_infos s)" "j < length (f_blocks (file_infos s ! i))"
  shows "\<exists>d. blockData s (int i) (int j) = Inr d \<and>
              int (length d) = b_size (f_blocks (file_infos s ! i) ! j)"
proof -
  have "0 < b_size (f_blocks (file_infos s ! i) ! j) \<and>
        b_size (f_blocks (file_infos s ! i) ! j) \<le> int (length (pattern s))"
    using assms(1) nth_mem[OF assms(2)] nth_mem[OF assms(3)] unfolding planned_def by blast
  then obtain d where d: "blockData s (int i) (int j) = Inr d"
    using blockData_planned[OF assms(2,3)] by blast
  then show ?thesis using blockData_length[OF d] by simp
qed

lemma planned_same_plan: "same_plan s s' \<Longrightarrow> planned s \<Longrightarrow> planned s'"
  by (simp add: planned_def same_plan_def)

lemma writeFull_block_logged:
  assumes lg: "logged (block_call s) s s1" and pl: "planned s"
    and i: "i < length (file_infos s)" and j: "j < length (f_blocks (file_infos s ! i))"
  shows "\<exists>ok s2. writeFull_block E dev i j s1 = Inr (ok, s2) \<and> logged (block_call s) s s2"
proof -
  have sp: "same_plan s s1" using lg by (rule logged_plan)
  then have fi: "file_infos s1 = file_infos s" by (simp add: same_plan_def)
  define fl where "fl = f_path (file_infos s ! i)"
  define blk where "blk = f_blocks (file_infos s ! i) ! j"
  from blockData_total[OF pl i j] obtain d where bd0: "blockData s (int i) (int j) = Inr d"
    by blast
  have bd: "blockData s1 (int i) (int j) = Inr d"
    using bd0 blockData_same_plan[OF sp] by simp
  obtain w sw where sw: "seek_write E dev fl (b_rel_offset blk) d (b_size blk) s1 = (w, sw)"
    by (cases "seek_write E dev fl (b_rel_offset blk) d (b_size blk) s1")
  have bc: "block_call s (QWrite fl d n)" for n
    using i j bd0 by (auto simp: block_call_def fl_def)
  have lsw: "logged (block_call s) s sw"
    using seek_write_cases[OF sw]
  proof (elim disjE conjE exE)
    assume "stepped E dev s1 (QSeek fl (b_rel_offset blk) False) sw"
    with lg show ?thesis by (rule logged_stepped) (simp add: block_call_def)
  next
    fix sk n
    assume st1: "stepped E dev s1 (QSeek fl (b_rel_offset blk) True) sk"
      and st2: "stepped E dev sk (QWrite fl d n) sw"
    have "logged (block_call s) s sk"
      using lg st1 by (rule logged_stepped) (simp add: block_call_def)
    then show ?thesis using st2 bc by (rule logged_stepped)
  qed
  have lf: "logged (block_call s) s (do_fsync E dev fl sw)"
    using lsw by (rule logged_fsync) (simp add: block_call_def)
  show ?thesis
    using bd sw lsw lf
    by (cases w) (auto simp: writeFull_block_def Let_def fi fl_def blk_def)
qed

lemma writeFull_file_logged:
  assumes lg: "logged (block_call s) s s1" and pl: "planned s" and i: "i < length (file_infos s)"
  shows "\<exists>ok s2. writeFull_file E dev i s1 = Inr (ok, s2) \<and> logged (block_call s) s s2"
proof -
  have fi: "file_infos s1 = file_infos s"
    using logged_plan[OF lg] by (simp add: same_plan_def)
  have l0: "logged (block_call s) s (do_fsync E dev (f_path (file_infos s ! i)) s1)"
    using lg by (rule logged_fsync) (simp add: block_call_def)
  have "\<exists>r y. for_each_a (writeFull_block E dev i) [0..<length (f_blocks (file_infos s ! i))]
           (do_fsync E dev (f_path (file_infos s ! i)) s1) = Inr (r, y) \<and> logged (block_call s) s y"
    by (rule for_each_a_total[where I = "logged (block_call s) s", OF l0])
       (use pl i in \<open>auto intro: writeFull_block_logged\<close>)
  then show ?thesis by (simp add: writeFull_file_def Let_def fi)
qed

lemma writeFull_logged:
  assumes pl: "planned s"
  shows "\<exists>ok s1. writeFull E dev s = Inr (ok, s1) \<and> logged (block_call s) s s1"
  unfolding writeFull_def
  by (rule for_each_a_total[where I = "logged (block_call s) s"])
     (use pl in \<open>auto intro: writeFull_file_logged\<close>)


lemma for_each_a_total_rule:
  assumes "I s1" "R True s1"
    and "\<And>i x. i \<in> set is \<Longrightarrow> I x \<Longrightarrow> R True x \<Longrightarrow> \<exists>r y. body i x = Inr (r, y) \<and> I y \<and> R r y"
  shows "\<exists>r y. for_each_a body is s1 = Inr (r, y) \<and> I y \<and> R r y"
  using assms
proof (induction "is" arbitrary: s1)
  case Nil
  then show ?case by auto
next
  case (Cons i "is")
  from Cons.prems(3)[of i s1] Cons.prems(1,2)
  obtain r1 s2 where b: "body i s1 = Inr (r1, s2)" and I2: "I s2" and R2: "R r1 s2" by auto
  have st: "\<exists>r y. body j x = Inr (r, y) \<and> I y \<and> R r y" if "j \<in> set is" "I x" "R True x" for j x
    using that Cons.prems(3)[of j x] by simp
  show ?case
  proof (cases r1)
    case False
    then show ?thesis using b I2 R2 by auto
  next
    case True
    then have "R True s2" using R2 by simp
    from Cons.IH[OF I2 this st] show ?thesis using b True by auto
  qed
qed

lemma logged_weaken: "logged P s x \<Longrightarrow> (\<And>e. P e \<Longrightarrow> Q e) \<Longrightarrow> logged Q s x"
  by (auto simp: logged_def)

lemma verifyFull_block_logged:
  assumes sp: "same_plan s x" and pl: "planned s"
    and i: "i < length (file_infos s)" and j: "j < length (f_blocks (file_infos s ! i))"
    and lx: "logged (block_call s) s0 x"
  shows "\<exists>ok y. verifyFull_block E dev i j x = Inr (ok, y) \<and> same_plan s y \<and>
           logged (\<lambda>e. ok \<longrightarrow> block_call s e) s0 y"
proof -
  have fi: "file_infos x = file_infos s" using sp by (simp add: same_plan_def)
  define fl where "fl = f_path (file_infos s ! i)"
  define blk where "blk = f_blocks (file_infos s ! i) ! j"
  from blockData_total[OF pl i j] obtain d where bd0: "blockData s (int i) (int j) = Inr d"
    by blast
  have bd: "blockData x (int i) (int j) = Inr d"
    using bd0 blockData_same_plan[OF sp] by simp
  obtain w sw where sw: "seek_read E dev fl (b_rel_offset blk) (b_size blk) d x = (w, sw)"
    by (cases "seek_read E dev fl (b_rel_offset blk) (b_size blk) d x")
  have spw: "same_plan s sw"
    using same_plan_seek(4)[OF sw] sp by (rule same_plan_trans[rotated])
  have bc: "block_call s (QRead fl (b_size blk) d)"
    using i j bd0 by (auto simp: block_call_def fl_def blk_def)
  have l0: "logged (\<lambda>e. True) s0 x" using lx by (rule logged_weaken) simp
  have any: "logged (\<lambda>e. True) s0 sw"
    using seek_read_cases[OF sw] l0 by (auto intro: logged_stepped)
  have lsw: "logged (block_call s) s0 sw" if "w"
    using seek_read_cases[OF sw] that
  proof (elim disjE conjE exE)
    fix sk d'
    assume st1: "stepped E dev x (QSeek fl (b_rel_offset blk) True) sk"
      and st2: "stepped E dev sk (QRead fl (b_size blk) d') sw" and w: "w = (d' = d)"
    have "logged (block_call s) s0 sk"
      using lx st1 by (rule logged_stepped) (simp add: block_call_def)
    then show ?thesis using st2 bc w that by (auto intro: logged_stepped)
  qed simp
  show ?thesis
  proof (cases w)
    case False
    then have "verifyFull_block E dev i j x =
        Inr (False, emit (verifyFailed (b_abs_offset blk) (b_size blk)) (add_error (Verify E) sw))"
      using bd sw by (simp add: verifyFull_block_def Let_def fi fl_def blk_def)
    then show ?thesis using spw any by auto
  next
    case True
    define ok where "ok = (\<not> abortRequested (emit (verified (b_abs_end blk)) sw))"
    have "verifyFull_block E dev i j x = Inr (ok, emit (verified (b_abs_end blk)) sw)"
      using True bd sw by (simp add: verifyFull_block_def Let_def fi fl_def blk_def ok_def)
    moreover have "logged (\<lambda>e. ok \<longrightarrow> block_call s e) s0 sw"
      using lsw[OF True] by (rule logged_weaken) simp
    ultimately show ?thesis using spw by auto
  qed
qed

lemma verifyFull_file_logged:
  assumes sp: "same_plan s x" and pl: "planned s" and i: "i < length (file_infos s)"
    and lx: "logged (block_call s) s0 x"
  shows "\<exists>ok y. verifyFull_file E dev i x = Inr (ok, y) \<and> same_plan s y \<and>
           logged (\<lambda>e. ok \<longrightarrow> block_call s e) s0 y"
proof -
  have fi: "file_infos x = file_infos s" using sp by (simp add: same_plan_def)
  define xf where "xf = do_fsync E dev (f_path (file_infos s ! i)) x"
  have spf: "same_plan s xf" using sp by (simp add: xf_def)
  have lf: "logged (block_call s) s0 xf"
    unfolding xf_def using lx by (rule logged_fsync) (simp add: block_call_def)
  have "\<exists>r y. for_each_a (verifyFull_block E dev i) [0..<length (f_blocks (file_infos s ! i))] xf
            = Inr (r, y) \<and> same_plan s y \<and> logged (\<lambda>e. r \<longrightarrow> block_call s e) s0 y"
  proof (rule for_each_a_total_rule[where I = "same_plan s"
        and R = "\<lambda>r y. logged (\<lambda>e. r \<longrightarrow> block_call s e) s0 y"])
    show "same_plan s xf" by (rule spf)
    show "logged (\<lambda>e. True \<longrightarrow> block_call s e) s0 xf" using lf by simp
  next
    fix j y
    assume j: "j \<in> set [0..<length (f_blocks (file_infos s ! i))]" and spy: "same_plan s y"
      and R: "logged (\<lambda>e. True \<longrightarrow> block_call s e) s0 y"
    have ly: "logged (block_call s) s0 y" using R by simp
    have jj: "j < length (f_blocks (file_infos s ! i))" using j by simp
    show "\<exists>r z. verifyFull_block E dev i j y = Inr (r, z) \<and> same_plan s z \<and>
            logged (\<lambda>e. r \<longrightarrow> block_call s e) s0 z"
      by (rule verifyFull_block_logged[OF spy pl i jj ly])
  qed
  then show ?thesis by (simp add: verifyFull_file_def Let_def fi xf_def)
qed

lemma verifyFull_logged:
  assumes sp: "same_plan s s1" and pl: "planned s"
  shows "\<exists>ok s2. verifyFull E dev s1 = Inr (ok, s2) \<and> same_plan s s2 \<and>
           logged (\<lambda>e. ok \<longrightarrow> block_call s e) s1 s2"
proof -
  have fi: "file_infos s1 = file_infos s" using sp by (simp add: same_plan_def)
  have "\<exists>r y. for_each_a (verifyFull_file E dev) [0..<length (file_infos s)] (emit verifyStarted s1)
            = Inr (r, y) \<and> same_plan s y \<and> logged (\<lambda>e. r \<longrightarrow> block_call s e) s1 y"
  proof (rule for_each_a_total_rule[where I = "same_plan s"
        and R = "\<lambda>r y. logged (\<lambda>e. r \<longrightarrow> block_call s e) s1 y"])
    show "same_plan s (emit verifyStarted s1)" using sp by simp
    show "logged (\<lambda>e. True \<longrightarrow> block_call s e) s1 (emit verifyStarted s1)" by simp
  next
    fix i y
    assume i: "i \<in> set [0..<length (file_infos s)]" and spy: "same_plan s y"
      and R: "logged (\<lambda>e. True \<longrightarrow> block_call s e) s1 y"
    have ly: "logged (block_call s) s1 y" using R by simp
    have ii: "i < length (file_infos s)" using i by simp
    show "\<exists>r z. verifyFull_file E dev i y = Inr (r, z) \<and> same_plan s z \<and>
            logged (\<lambda>e. r \<longrightarrow> block_call s e) s1 z"
      by (rule verifyFull_file_logged[OF spy pl ii ly])
  qed
  then show ?thesis by (simp add: verifyFull_def fi)
qed

lemma prefix_calls_iff:
  "prefix_calls new plan \<longleftrightarrow> (\<exists>rest. map call_args plan = map call_args new @ rest)"
proof
  assume p: "prefix_calls new plan"
  have "map call_args plan = take (length new) (map call_args plan) @ drop (length new) (map call_args plan)"
    by simp
  then have "map call_args plan = map call_args new @ drop (length new) (map call_args plan)"
    using p by (simp add: prefix_calls_def)
  then show "\<exists>rest. map call_args plan = map call_args new @ rest" by blast
next
  assume "\<exists>rest. map call_args plan = map call_args new @ rest"
  then obtain rest where r: "map call_args plan = map call_args new @ rest" by blast
  have "length (map call_args plan) = length (map call_args new @ rest)" using r by simp
  then have "length new \<le> length plan" by simp
  then show "prefix_calls new plan" using r by (simp add: prefix_calls_def)
qed

lemma prefix_calls_refl [simp]: "prefix_calls xs xs"
  by (simp add: prefix_calls_def)

lemma prefix_calls_Nil [simp]: "prefix_calls [] xs"
  by (simp add: prefix_calls_def)

lemma prefix_calls_left: "prefix_calls new p \<Longrightarrow> prefix_calls new (p @ q)"
  by (auto simp: prefix_calls_iff)

lemma prefix_calls_right: "prefix_calls new q \<Longrightarrow> prefix_calls (p @ new) (p @ q)"
  by (auto simp: prefix_calls_iff)

lemma for_each_a_log:
  assumes "for_each_a body is s1 = Inr (r, s')" "I s1"
    and "\<And>i x r y. i \<in> set is \<Longrightarrow> I x \<Longrightarrow> body i x = Inr (r, y) \<Longrightarrow>
           I y \<and> (\<exists>new. oplog y = oplog x @ new \<and> prefix_calls new (L i) \<and> (r \<longrightarrow> new = L i))"
  shows "I s' \<and> (\<exists>new. oplog s' = oplog s1 @ new \<and> prefix_calls new (concat (map L is)) \<and>
                   (r \<longrightarrow> new = concat (map L is)))"
  using assms
proof (induction "is" arbitrary: s1)
  case Nil
  then show ?case by simp
next
  case (Cons i "is")
  from Cons.prems(1) obtain r1 s2 where b: "body i s1 = Inr (r1, s2)"
    by (cases "body i s1") (auto split: prod.splits)
  have "I s2 \<and> (\<exists>new. oplog s2 = oplog s1 @ new \<and> prefix_calls new (L i) \<and> (r1 \<longrightarrow> new = L i))"
    by (rule Cons.prems(3)[OF _ Cons.prems(2) b]) simp
  then obtain new1 where I2: "I s2" and o1: "oplog s2 = oplog s1 @ new1"
    and p1: "prefix_calls new1 (L i)" and e1: "r1 \<Longrightarrow> new1 = L i"
    by blast
  have st: "I y \<and> (\<exists>new. oplog y = oplog x @ new \<and> prefix_calls new (L j) \<and> (r2 \<longrightarrow> new = L j))"
    if "j \<in> set is" "I x" "body j x = Inr (r2, y)" for j x r2 y
    using that Cons.prems(3)[of j x r2 y] by simp
  show ?case
  proof (cases r1)
    case False
    then have res: "r = False" "s' = s2" using Cons.prems(1) b by simp_all
    have "prefix_calls new1 (concat (map L (i # is)))"
      using prefix_calls_left[OF p1] by simp
    then show ?thesis using res I2 o1 by simp
  next
    case True
    then have run: "for_each_a body is s2 = Inr (r, s')" using Cons.prems(1) b by simp
    from Cons.IH[OF run I2 st] obtain new2 where I3: "I s'" and o2: "oplog s' = oplog s2 @ new2"
      and p2: "prefix_calls new2 (concat (map L is))" and e2: "r \<Longrightarrow> new2 = concat (map L is)"
      by blast
    have n1: "new1 = L i" using e1 True by simp
    have o: "oplog s' = oplog s1 @ (L i @ new2)" using o1 o2 n1 by simp
    have p: "prefix_calls (L i @ new2) (concat (map L (i # is)))"
      using prefix_calls_right[OF p2] by simp
    have e: "r \<Longrightarrow> L i @ new2 = concat (map L (i # is))" using e2 by simp
    from I3 o p e show ?thesis by blast
  qed
qed

lemma oplog_fsync: "oplog (do_fsync E dev p s) = oplog s @ fsync_calls dev p"
  using stepped_fsync[OF refl, where E = E and dev = dev and p = p and s = s]
  by (auto simp: fsync_calls_def dest: stepped_fields(2))

lemma block_bytes_eq: "blockData s (int i) (int j) = Inr d \<Longrightarrow> block_bytes s i j = d"
  by (simp add: block_bytes_def)

lemma writeFull_block_calls:
  assumes run: "writeFull_block E dev i j x = Inr (r, y)" and sp: "same_plan s x"
  shows "\<exists>new. oplog y = oplog x @ new \<and> prefix_calls new (write_calls dev s i j) \<and>
               (r \<longrightarrow> new = write_calls dev s i j)"
proof -
  have fi: "file_infos x = file_infos s" using sp by (simp add: same_plan_def)
  define fl where "fl = f_path (file_infos s ! i)"
  define blk where "blk = f_blocks (file_infos s ! i) ! j"
  from run obtain d where bd: "blockData x (int i) (int j) = Inr d"
    by (auto simp: writeFull_block_def Let_def split: sum.splits)
  have bb: "block_bytes s i j = d"
    using bd blockData_same_plan[OF sp] by (simp add: block_bytes_eq)
  have wc: "write_calls dev s i j =
      [QSeek fl (b_rel_offset blk) True, QWrite fl d (b_size blk)] @ fsync_calls dev fl"
    by (simp add: write_calls_def Let_def fl_def blk_def bb)
  obtain w sw where sw: "seek_write E dev fl (b_rel_offset blk) d (b_size blk) x = (w, sw)"
    by (cases "seek_write E dev fl (b_rel_offset blk) d (b_size blk) x")
  have res: "(\<not> w \<and> \<not> r \<and> oplog y = oplog sw) \<or>
             (w \<and> oplog y = oplog sw @ fsync_calls dev fl)"
    using run bd sw
    by (auto simp: writeFull_block_def Let_def fi fl_def blk_def oplog_fsync
        split: if_splits bool.splits)
  from seek_write_cases[OF sw]
  consider (seek) "\<not> w" "oplog sw = oplog x @ [QSeek fl (b_rel_offset blk) False]"
    | (wrote) n where "oplog sw = oplog x @ [QSeek fl (b_rel_offset blk) True, QWrite fl d n]"
        "w = (n = b_size blk)"
    by (auto dest!: stepped_fields(2))
  then show ?thesis
  proof cases
    case seek
    then have "oplog y = oplog x @ [QSeek fl (b_rel_offset blk) False]" "\<not> r"
      using res by auto
    moreover have "prefix_calls [QSeek fl (b_rel_offset blk) False] (write_calls dev s i j)"
      by (simp add: prefix_calls_def wc)
    ultimately show ?thesis by blast
  next
    case wrote
    show ?thesis
    proof (cases w)
      case False
      then have "oplog y = oplog x @ [QSeek fl (b_rel_offset blk) True, QWrite fl d n]" "\<not> r"
        using res wrote by auto
      moreover have "prefix_calls [QSeek fl (b_rel_offset blk) True, QWrite fl d n] (write_calls dev s i j)"
        by (simp add: prefix_calls_def wc)
      ultimately show ?thesis by blast
    next
      case True
      then have "oplog y = oplog x @ write_calls dev s i j"
        using res wrote by (simp add: wc)
      then show ?thesis by simp
    qed
  qed
qed

lemma verifyFull_block_calls:
  assumes run: "verifyFull_block E dev i j x = Inr (r, y)" and sp: "same_plan s x"
  shows "\<exists>new. oplog y = oplog x @ new \<and> prefix_calls new (verify_calls s i j) \<and>
               (r \<longrightarrow> new = verify_calls s i j)"
proof -
  have fi: "file_infos x = file_infos s" using sp by (simp add: same_plan_def)
  define fl where "fl = f_path (file_infos s ! i)"
  define blk where "blk = f_blocks (file_infos s ! i) ! j"
  from run obtain d where bd: "blockData x (int i) (int j) = Inr d"
    by (auto simp: verifyFull_block_def Let_def split: sum.splits)
  have bb: "block_bytes s i j = d"
    using bd blockData_same_plan[OF sp] by (simp add: block_bytes_eq)
  have vc: "verify_calls s i j = [QSeek fl (b_rel_offset blk) True, QRead fl (b_size blk) d]"
    by (simp add: verify_calls_def Let_def fl_def blk_def bb)
  obtain w sw where sw: "seek_read E dev fl (b_rel_offset blk) (b_size blk) d x = (w, sw)"
    by (cases "seek_read E dev fl (b_rel_offset blk) (b_size blk) d x")
  have res: "(\<not> w \<and> \<not> r \<and> oplog y = oplog sw) \<or> (w \<and> oplog y = oplog sw)"
    using run bd sw
    by (auto simp: verifyFull_block_def Let_def fi fl_def blk_def
        split: if_splits bool.splits)
  from seek_read_cases[OF sw]
  consider (seek) "\<not> w" "oplog sw = oplog x @ [QSeek fl (b_rel_offset blk) False]"
    | (got) d' where "oplog sw = oplog x @ [QSeek fl (b_rel_offset blk) True, QRead fl (b_size blk) d']"
        "w = (d' = d)"
    by (auto dest!: stepped_fields(2))
  then show ?thesis
  proof cases
    case seek
    then have "oplog y = oplog x @ [QSeek fl (b_rel_offset blk) False]" "\<not> r"
      using res by auto
    moreover have "prefix_calls [QSeek fl (b_rel_offset blk) False] (verify_calls s i j)"
      by (simp add: prefix_calls_def vc)
    ultimately show ?thesis by blast
  next
    case got
    show ?thesis
    proof (cases w)
      case False
      then have "oplog y = oplog x @ [QSeek fl (b_rel_offset blk) True, QRead fl (b_size blk) d']" "\<not> r"
        using res got by auto
      moreover have "prefix_calls [QSeek fl (b_rel_offset blk) True, QRead fl (b_size blk) d'] (verify_calls s i j)"
        by (simp add: prefix_calls_def vc)
      ultimately show ?thesis by blast
    next
      case True
      then have "oplog y = oplog x @ verify_calls s i j"
        using res got by (simp add: vc)
      then show ?thesis by simp
    qed
  qed
qed

lemma writeFull_file_calls:
  assumes run: "writeFull_file E dev i x = Inr (r, y)" and sp: "same_plan s x"
  shows "same_plan s y \<and>
     (\<exists>new. oplog y = oplog x @ new \<and>
        prefix_calls new (fsync_calls dev (f_path (file_infos s ! i)) @
           concat (map (write_calls dev s i) [0..<length (f_blocks (file_infos s ! i))])) \<and>
        (r \<longrightarrow> new = fsync_calls dev (f_path (file_infos s ! i)) @
           concat (map (write_calls dev s i) [0..<length (f_blocks (file_infos s ! i))])))"
proof -
  have fi: "file_infos x = file_infos s" using sp by (simp add: same_plan_def)
  define x0 where "x0 = do_fsync E dev (f_path (file_infos s ! i)) x"
  have o0: "oplog x0 = oplog x @ fsync_calls dev (f_path (file_infos s ! i))"
    by (simp add: x0_def oplog_fsync)
  have sp0: "same_plan s x0"
    using sp by (simp add: x0_def same_plan_def)
  have loop: "for_each_a (writeFull_block E dev i) [0..<length (f_blocks (file_infos s ! i))] x0 = Inr (r, y)"
    using run by (simp add: writeFull_file_def Let_def fi x0_def)
  have "same_plan s y \<and> (\<exists>new. oplog y = oplog x0 @ new \<and>
          prefix_calls new (concat (map (write_calls dev s i) [0..<length (f_blocks (file_infos s ! i))])) \<and>
          (r \<longrightarrow> new = concat (map (write_calls dev s i) [0..<length (f_blocks (file_infos s ! i))])))"
  proof (rule for_each_a_log[where I = "same_plan s", OF loop sp0])
    fix j x1 r1 y1
    assume I: "same_plan s x1" and b: "writeFull_block E dev i j x1 = Inr (r1, y1)"
    have "same_plan s y1" using I same_plan_writeFull_block[OF b] by (rule same_plan_trans)
    then show "same_plan s y1 \<and> (\<exists>new. oplog y1 = oplog x1 @ new \<and>
        prefix_calls new (write_calls dev s i j) \<and> (r1 \<longrightarrow> new = write_calls dev s i j))"
      using writeFull_block_calls[OF b I] by simp
  qed
  then obtain new where spy: "same_plan s y" and o: "oplog y = oplog x0 @ new"
    and p: "prefix_calls new (concat (map (write_calls dev s i) [0..<length (f_blocks (file_infos s ! i))]))"
    and e: "r \<Longrightarrow> new = concat (map (write_calls dev s i) [0..<length (f_blocks (file_infos s ! i))])"
    by blast
  have o': "oplog y = oplog x @ (fsync_calls dev (f_path (file_infos s ! i)) @ new)"
    using o o0 by simp
  from spy o' prefix_calls_right[OF p] e show ?thesis by blast
qed

lemma verifyFull_file_calls:
  assumes run: "verifyFull_file E dev i x = Inr (r, y)" and sp: "same_plan s x"
  shows "same_plan s y \<and>
     (\<exists>new. oplog y = oplog x @ new \<and>
        prefix_calls new (fsync_calls dev (f_path (file_infos s ! i)) @
           concat (map (verify_calls s i) [0..<length (f_blocks (file_infos s ! i))])) \<and>
        (r \<longrightarrow> new = fsync_calls dev (f_path (file_infos s ! i)) @
           concat (map (verify_calls s i) [0..<length (f_blocks (file_infos s ! i))])))"
proof -
  have fi: "file_infos x = file_infos s" using sp by (simp add: same_plan_def)
  define x0 where "x0 = do_fsync E dev (f_path (file_infos s ! i)) x"
  have o0: "oplog x0 = oplog x @ fsync_calls dev (f_path (file_infos s ! i))"
    by (simp add: x0_def oplog_fsync)
  have sp0: "same_plan s x0"
    using sp by (simp add: x0_def same_plan_def)
  have loop: "for_each_a (verifyFull_block E dev i) [0..<length (f_blocks (file_infos s ! i))] x0 = Inr (r, y)"
    using run by (simp add: verifyFull_file_def Let_def fi x0_def)
  have "same_plan s y \<and> (\<exists>new. oplog y = oplog x0 @ new \<and>
          prefix_calls new (concat (map (verify_calls s i) [0..<length (f_blocks (file_infos s ! i))])) \<and>
          (r \<longrightarrow> new = concat (map (verify_calls s i) [0..<length (f_blocks (file_infos s ! i))])))"
  proof (rule for_each_a_log[where I = "same_plan s", OF loop sp0])
    fix j x1 r1 y1
    assume I: "same_plan s x1" and b: "verifyFull_block E dev i j x1 = Inr (r1, y1)"
    have "same_plan s y1" using I same_plan_verifyFull_block[OF b] by (rule same_plan_trans)
    then show "same_plan s y1 \<and> (\<exists>new. oplog y1 = oplog x1 @ new \<and>
        prefix_calls new (verify_calls s i j) \<and> (r1 \<longrightarrow> new = verify_calls s i j))"
      using verifyFull_block_calls[OF b I] by simp
  qed
  then obtain new where spy: "same_plan s y" and o: "oplog y = oplog x0 @ new"
    and p: "prefix_calls new (concat (map (verify_calls s i) [0..<length (f_blocks (file_infos s ! i))]))"
    and e: "r \<Longrightarrow> new = concat (map (verify_calls s i) [0..<length (f_blocks (file_infos s ! i))])"
    by blast
  have o': "oplog y = oplog x @ (fsync_calls dev (f_path (file_infos s ! i)) @ new)"
    using o o0 by simp
  from spy o' prefix_calls_right[OF p] e show ?thesis by blast
qed

lemma writeFull_calls_log:
  assumes run: "writeFull E dev s = Inr (r, y)"
  shows "\<exists>new. oplog y = oplog s @ new \<and> prefix_calls new (writeFull_calls dev s) \<and>
               (r \<longrightarrow> new = writeFull_calls dev s)"
proof -
  have loop: "for_each_a (writeFull_file E dev) [0..<length (file_infos s)] (emit writeStarted s) = Inr (r, y)"
    using run by (simp add: writeFull_def)
  have "same_plan s y \<and> (\<exists>new. oplog y = oplog (emit writeStarted s) @ new \<and>
          prefix_calls new (concat (map (\<lambda>i. fsync_calls dev (f_path (file_infos s ! i)) @
                       concat (map (write_calls dev s i) [0..<length (f_blocks (file_infos s ! i))]))
               [0..<length (file_infos s)])) \<and>
          (r \<longrightarrow> new = concat (map (\<lambda>i. fsync_calls dev (f_path (file_infos s ! i)) @
                       concat (map (write_calls dev s i) [0..<length (f_blocks (file_infos s ! i))]))
               [0..<length (file_infos s)])))"
    by (rule for_each_a_log[where I = "same_plan s", OF loop]) (simp_all add: writeFull_file_calls)
  then show ?thesis by (simp add: writeFull_calls_def)
qed

lemma verifyFull_calls_log:
  assumes run: "verifyFull E dev x = Inr (r, y)" and sp: "same_plan s x"
  shows "\<exists>new. oplog y = oplog x @ new \<and> prefix_calls new (verifyFull_calls dev s) \<and>
               (r \<longrightarrow> new = verifyFull_calls dev s)"
proof -
  have fi: "file_infos x = file_infos s" using sp by (simp add: same_plan_def)
  have loop: "for_each_a (verifyFull_file E dev) [0..<length (file_infos s)] (emit verifyStarted x) = Inr (r, y)"
    using run by (simp add: verifyFull_def fi)
  have sp0: "same_plan s (emit verifyStarted x)" using sp by simp
  have "same_plan s y \<and> (\<exists>new. oplog y = oplog (emit verifyStarted x) @ new \<and>
          prefix_calls new (concat (map (\<lambda>i. fsync_calls dev (f_path (file_infos s ! i)) @
                       concat (map (verify_calls s i) [0..<length (f_blocks (file_infos s ! i))]))
               [0..<length (file_infos s)])) \<and>
          (r \<longrightarrow> new = concat (map (\<lambda>i. fsync_calls dev (f_path (file_infos s ! i)) @
                       concat (map (verify_calls s i) [0..<length (f_blocks (file_infos s ! i))]))
               [0..<length (file_infos s)])))"
    by (rule for_each_a_log[where I = "same_plan s", OF loop sp0]) (simp_all add: verifyFull_file_calls)
  then show ?thesis by (simp add: verifyFull_calls_def)
qed

text \<open>
  C2. On a plan whose blocks are positive and no longer than the pattern (as every plan of
  \<open>start\<close> is), for every environment: \<open>writeFull\<close> and then \<open>verifyFull\<close> run without a
  failed assertion; for every block of the plan \<open>blockData\<close> yields a byte string of exactly
  the block's size, and yields the same string before the writer, after the writer and after
  the verifier; the planned calls of that block are the seek to the block's offset and the
  write of that string with that size, and the seek to the same offset and the read of that
  size expecting that same string. The calls the writer makes are, call for call and
  argument for argument, a prefix of the planned writes, and all of them when it returns
  \<open>true\<close>; the calls the verifier makes are a prefix of the planned reads, and when it
  returns \<open>true\<close> every read it made, one per block, returned exactly the string the writer
  was to write for that block. Hence every write carries the \<open>blockData\<close> of a block of
  the plan, to that block's file, and when the verifier passes every read returned the
  \<open>blockData\<close> of the block it read.
\<close>

theorem blockData_round_trip:
  assumes "\<forall>f \<in> set (file_infos s). \<forall>b \<in> set (f_blocks f).
             0 < b_size b \<and> b_size b \<le> int (length (pattern s))"
  shows "\<exists>okw s1 okv s2 neww newv.
     writeFull E dev s = Inr (okw, s1) \<and> verifyFull E dev s1 = Inr (okv, s2) \<and>
     oplog s1 = oplog s @ neww \<and> oplog s2 = oplog s1 @ newv \<and>
     (\<forall>i j. i < length (file_infos s) \<and> j < length (f_blocks (file_infos s ! i)) \<longrightarrow>
        (\<exists>d. blockData s (int i) (int j) = Inr d \<and>
             int (length d) = b_size (f_blocks (file_infos s ! i) ! j) \<and>
             blockData s1 (int i) (int j) = Inr d \<and> blockData s2 (int i) (int j) = Inr d \<and>
             write_calls dev s i j =
               [QSeek (f_path (file_infos s ! i)) (b_rel_offset (f_blocks (file_infos s ! i) ! j)) True,
                QWrite (f_path (file_infos s ! i)) d (b_size (f_blocks (file_infos s ! i) ! j))] @
               fsync_calls dev (f_path (file_infos s ! i)) \<and>
             verify_calls s i j =
               [QSeek (f_path (file_infos s ! i)) (b_rel_offset (f_blocks (file_infos s ! i) ! j)) True,
                QRead (f_path (file_infos s ! i)) (b_size (f_blocks (file_infos s ! i) ! j)) d])) \<and>
     prefix_calls neww (writeFull_calls dev s) \<and> (okw \<longrightarrow> neww = writeFull_calls dev s) \<and>
     prefix_calls newv (verifyFull_calls dev s) \<and> (okv \<longrightarrow> newv = verifyFull_calls dev s) \<and>
     (\<forall>p d n. QWrite p d n \<in> set neww \<longrightarrow>
        (\<exists>i j. i < length (file_infos s) \<and> j < length (f_blocks (file_infos s ! i)) \<and>
           p = f_path (file_infos s ! i) \<and> blockData s (int i) (int j) = Inr d)) \<and>
     (okv \<longrightarrow>
        (\<forall>p n d. QRead p n d \<in> set newv \<longrightarrow>
           (\<exists>i j. i < length (file_infos s) \<and> j < length (f_blocks (file_infos s ! i)) \<and>
              p = f_path (file_infos s ! i) \<and> n = b_size (f_blocks (file_infos s ! i) ! j) \<and>
              blockData s (int i) (int j) = Inr d)))"
proof -
  have pl: "planned s" using assms by (simp add: planned_def)
  from writeFull_logged[OF pl, of E dev] obtain okw s1 where
    w: "writeFull E dev s = Inr (okw, s1)" and lw: "logged (block_call s) s s1"
    by blast
  have sp1: "same_plan s s1" using lw by (rule logged_plan)
  from verifyFull_logged[OF sp1 pl, of E dev] obtain okv s2 where
    v: "verifyFull E dev s1 = Inr (okv, s2)" and sp2: "same_plan s s2"
    and lv: "logged (\<lambda>e. okv \<longrightarrow> block_call s e) s1 s2"
    by blast
  from writeFull_calls_log[OF w] obtain neww where nw: "oplog s1 = oplog s @ neww"
    and pw: "prefix_calls neww (writeFull_calls dev s)"
    and ew: "okw \<longrightarrow> neww = writeFull_calls dev s"
    by blast
  from verifyFull_calls_log[OF v sp1] obtain newv where nv: "oplog s2 = oplog s1 @ newv"
    and pv: "prefix_calls newv (verifyFull_calls dev s)"
    and ev: "okv \<longrightarrow> newv = verifyFull_calls dev s"
    by blast
  have bw: "\<forall>e \<in> set neww. block_call s e"
    using lw nw by (auto simp: logged_def)
  have bv: "\<forall>e \<in> set newv. okv \<longrightarrow> block_call s e"
    using lv nv by (auto simp: logged_def)
  have data: "\<exists>d. blockData s (int i) (int j) = Inr d \<and>
             int (length d) = b_size (f_blocks (file_infos s ! i) ! j) \<and>
             blockData s1 (int i) (int j) = Inr d \<and> blockData s2 (int i) (int j) = Inr d \<and>
             write_calls dev s i j =
               [QSeek (f_path (file_infos s ! i)) (b_rel_offset (f_blocks (file_infos s ! i) ! j)) True,
                QWrite (f_path (file_infos s ! i)) d (b_size (f_blocks (file_infos s ! i) ! j))] @
               fsync_calls dev (f_path (file_infos s ! i)) \<and>
             verify_calls s i j =
               [QSeek (f_path (file_infos s ! i)) (b_rel_offset (f_blocks (file_infos s ! i) ! j)) True,
                QRead (f_path (file_infos s ! i)) (b_size (f_blocks (file_infos s ! i) ! j)) d]"
    if "i < length (file_infos s)" "j < length (f_blocks (file_infos s ! i))" for i j
    using blockData_total[OF pl that] blockData_same_plan[OF sp1] blockData_same_plan[OF sp2]
    by (auto simp: write_calls_def verify_calls_def Let_def block_bytes_def)
  have wr: "\<exists>i j. i < length (file_infos s) \<and> j < length (f_blocks (file_infos s ! i)) \<and>
           p = f_path (file_infos s ! i) \<and> blockData s (int i) (int j) = Inr d"
    if "QWrite p d n \<in> set neww" for p d n
    using bw that by (force simp: block_call_def)
  have rd: "\<exists>i j. i < length (file_infos s) \<and> j < length (f_blocks (file_infos s ! i)) \<and>
              p = f_path (file_infos s ! i) \<and> n = b_size (f_blocks (file_infos s ! i) ! j) \<and>
              blockData s (int i) (int j) = Inr d"
    if "okv" "QRead p n d \<in> set newv" for p n d
    using bv that by (force simp: block_call_def)
  show ?thesis
    using w v nw nv data pw ew pv ev wr rd by blast
qed

theorem blockData_round_trip_witness:
  "\<exists>s1 s2. writeFull sim_Error sim_dev (sim_session (sim_short\<lparr>sim_short_write := None\<rparr>)) = Inr (True, s1) \<and>
     verifyFull sim_Error sim_dev s1 = Inr (True, s2) \<and>
     blockData s1 0 1 = Inr [7] \<and> blockData s2 0 1 = Inr [7] \<and>
     blockData s1 0 0 = Inr [48, 58, 48, 1] \<and> blockData s2 0 0 = Inr [48, 58, 48, 1] \<and>
     oplog s1 = [QSeek ''/mnt/CAPACITYTESTER0'' 0 True,
                 QWrite ''/mnt/CAPACITYTESTER0'' [48, 58, 48, 1] 4,
                 QSeek ''/mnt/CAPACITYTESTER0'' 4 True,
                 QWrite ''/mnt/CAPACITYTESTER0'' [7] 1] \<and>
     oplog s2 = oplog s1 @
                [QSeek ''/mnt/CAPACITYTESTER0'' 0 True,
                 QRead ''/mnt/CAPACITYTESTER0'' 4 [48, 58, 48, 1],
                 QSeek ''/mnt/CAPACITYTESTER0'' 4 True,
                 QRead ''/mnt/CAPACITYTESTER0'' 1 [7]]"
proof -
  define s where "s = sim_session (sim_short\<lparr>sim_short_write := None\<rparr>)"
  have h: "\<forall>f \<in> set (file_infos s). \<forall>b \<in> set (f_blocks f).
             0 < b_size b \<and> b_size b \<le> int (length (pattern s))"
    by (simp add: s_def sim_session_def)
  from blockData_round_trip[OF h, of sim_Error sim_dev]
  obtain okw s1 okv s2 neww newv where w: "writeFull sim_Error sim_dev s = Inr (okw, s1)"
    and v: "verifyFull sim_Error sim_dev s1 = Inr (okv, s2)"
    and lw: "oplog s1 = oplog s @ neww" and lv: "oplog s2 = oplog s1 @ newv"
    and d: "\<forall>i j. i < length (file_infos s) \<and> j < length (f_blocks (file_infos s ! i)) \<longrightarrow>
        (\<exists>d. blockData s (int i) (int j) = Inr d \<and>
             int (length d) = b_size (f_blocks (file_infos s ! i) ! j) \<and>
             blockData s1 (int i) (int j) = Inr d \<and> blockData s2 (int i) (int j) = Inr d \<and>
             write_calls sim_dev s i j =
               [QSeek (f_path (file_infos s ! i)) (b_rel_offset (f_blocks (file_infos s ! i) ! j)) True,
                QWrite (f_path (file_infos s ! i)) d (b_size (f_blocks (file_infos s ! i) ! j))] @
               fsync_calls sim_dev (f_path (file_infos s ! i)) \<and>
             verify_calls s i j =
               [QSeek (f_path (file_infos s ! i)) (b_rel_offset (f_blocks (file_infos s ! i) ! j)) True,
                QRead (f_path (file_infos s ! i)) (b_size (f_blocks (file_infos s ! i) ! j)) d])"
    and ew: "okw \<longrightarrow> neww = writeFull_calls sim_dev s"
    and ev: "okv \<longrightarrow> newv = verifyFull_calls sim_dev s"
    by blast
  have ok: "case writeFull sim_Error sim_dev s of
              Inl a \<Rightarrow> False
            | Inr (ok1, x) \<Rightarrow> ok1 \<and>
                (case verifyFull sim_Error sim_dev x of Inl a \<Rightarrow> False | Inr (ok2, y) \<Rightarrow> ok2)"
    unfolding s_def by code_simp
  have okw: okw and okv: okv using ok w v by auto
  have b1: "blockData s 0 1 = Inr [7]" and b0: "blockData s 0 0 = Inr [48, 58, 48, 1]"
    by (simp_all add: s_def sim_session_def blockData_def Let_def replace_def)
  have cw: "writeFull_calls sim_dev s =
      [QSeek ''/mnt/CAPACITYTESTER0'' 0 True, QWrite ''/mnt/CAPACITYTESTER0'' [48, 58, 48, 1] 4,
       QSeek ''/mnt/CAPACITYTESTER0'' 4 True, QWrite ''/mnt/CAPACITYTESTER0'' [7] 1]"
    unfolding s_def by code_simp
  have cv: "verifyFull_calls sim_dev s =
      [QSeek ''/mnt/CAPACITYTESTER0'' 0 True, QRead ''/mnt/CAPACITYTESTER0'' 4 [48, 58, 48, 1],
       QSeek ''/mnt/CAPACITYTESTER0'' 4 True, QRead ''/mnt/CAPACITYTESTER0'' 1 [7]]"
    unfolding s_def by code_simp
  have l0: "oplog s = []" by (simp add: s_def sim_session_def)
  from d[rule_format, of 0 1] d[rule_format, of 0 0] b1 b0
  have "blockData s1 0 1 = Inr [7] \<and> blockData s2 0 1 = Inr [7] \<and>
     blockData s1 0 0 = Inr [48, 58, 48, 1] \<and> blockData s2 0 0 = Inr [48, 58, 48, 1]"
    by (auto simp: s_def sim_session_def)
  moreover have "writeFull sim_Error sim_dev s = Inr (True, s1)" using w okw by simp
  moreover have "verifyFull sim_Error sim_dev s1 = Inr (True, s2)" using v okv by simp
  moreover have "oplog s1 = [QSeek ''/mnt/CAPACITYTESTER0'' 0 True,
                 QWrite ''/mnt/CAPACITYTESTER0'' [48, 58, 48, 1] 4,
                 QSeek ''/mnt/CAPACITYTESTER0'' 4 True,
                 QWrite ''/mnt/CAPACITYTESTER0'' [7] 1]"
    using lw ew okw cw l0 by simp
  moreover have "oplog s2 = oplog s1 @
                [QSeek ''/mnt/CAPACITYTESTER0'' 0 True,
                 QRead ''/mnt/CAPACITYTESTER0'' 4 [48, 58, 48, 1],
                 QSeek ''/mnt/CAPACITYTESTER0'' 4 True,
                 QRead ''/mnt/CAPACITYTESTER0'' 1 [7]]"
    using lv ev okv cv by simp
  ultimately show ?thesis unfolding s_def by blast
qed

section \<open>The files a run touches, and the cleanup\<close>

lemma walks_trans:
  assumes "walks E dev P s s1" "walks E dev P s1 s2"
  shows "walks E dev P s s2"
  using assms(2,1) by (induction rule: walks.induct) (auto intro: walks.intros)

lemma walks_stepI: "stepped E dev s e s1 \<Longrightarrow> P e \<Longrightarrow> walks E dev P s s1"
  by (blast intro: walks.intros)

lemma walks_same_plan: "walks E dev P s s' \<Longrightarrow> same_plan s s'"
  by (induction rule: walks.induct) (auto dest: stepped_fields(1) simp: same_plan_def)

lemma on_files_simps [simp]:
  "on_files S (QOpen p ok perm) = (p \<in> S)"
  "on_files S (QSeek p pos r) = (p \<in> S)"
  "on_files S (QWrite p d n) = (p \<in> S)"
  "on_files S (QResize p n r) = (p \<in> S)"
  "on_files S (QPutChar p b r) = (p \<in> S)"
  "on_files S (QGetChar p c) = (p \<in> S)"
  "on_files S (QRead p n d) = (p \<in> S)"
  "on_files S (QFsync p) = (p \<in> S)"
  "on_files S (QRemove p r) = False"
  by (simp_all add: on_files_def call_path_def is_remove_def)

lemma walks_seek:
  assumes "f \<in> S"
  shows "seek_write E dev f pos d x s = (ok, s') \<Longrightarrow> walks E dev (on_files S) s s'"
    "seek_read E dev f pos n d s = (ok, s') \<Longrightarrow> walks E dev (on_files S) s s'"
    "seek_putChar E dev f pos b s = (ok, s') \<Longrightarrow> walks E dev (on_files S) s s'"
    "seek_getChar E dev f pos b s = (ok, s') \<Longrightarrow> walks E dev (on_files S) s s'"
proof -
  have one: "stepped E dev s e s' \<Longrightarrow> call_path e = f \<Longrightarrow> \<not> is_remove e \<Longrightarrow>
      walks E dev (on_files S) s s'" for e s s'
    using assms by (auto intro!: walks_stepI simp: on_files_def)
  have two: "stepped E dev s e s1 \<Longrightarrow> stepped E dev s1 e' s' \<Longrightarrow> call_path e = f \<Longrightarrow>
      \<not> is_remove e \<Longrightarrow> call_path e' = f \<Longrightarrow> \<not> is_remove e' \<Longrightarrow>
      walks E dev (on_files S) s s'" for e e' s s1 s'
    using assms by (auto intro!: walks_step[OF walks_stepI] simp: on_files_def)
  show "seek_write E dev f pos d x s = (ok, s') \<Longrightarrow> walks E dev (on_files S) s s'"
    by (drule seek_write_cases) (auto intro: one two simp: call_path_def is_remove_def)
  show "seek_read E dev f pos n d s = (ok, s') \<Longrightarrow> walks E dev (on_files S) s s'"
    by (drule seek_read_cases) (auto intro: one two simp: call_path_def is_remove_def)
  show "seek_putChar E dev f pos b s = (ok, s') \<Longrightarrow> walks E dev (on_files S) s s'"
    by (drule seek_putChar_cases) (auto intro: one two simp: call_path_def is_remove_def)
  show "seek_getChar E dev f pos b s = (ok, s') \<Longrightarrow> walks E dev (on_files S) s s'"
    by (drule seek_getChar_cases) (auto intro: one two simp: call_path_def is_remove_def)
qed

lemma walks_fsync:
  assumes "walks E dev (on_files S) s s1" "p \<in> S"
  shows "walks E dev (on_files S) s (do_fsync E dev p s1)"
  using stepped_fsync[OF refl, where E = E and dev = dev and p = p and s = s1] assms
  by (auto intro: walks_step)

lemma tidy_step:
  assumes "tidy dev names" "env_step dev x e x'" "\<not> is_remove e"
  shows "names x' \<subseteq> insert (call_path e) (names x)"
proof -
  have "case e of QOpen p ok perm \<Rightarrow> names x' \<subseteq> insert p (names x)
         | QRemove p r \<Rightarrow> names x' \<subseteq> (if r then names x - {p} else names x)
         | _ \<Rightarrow> names x' \<subseteq> names x"
    using assms(1,2) unfolding tidy_def by blast
  then show ?thesis using assms(3) by (cases e) (auto simp: call_path_def is_remove_def)
qed

lemma walks_names:
  assumes "walks E dev (on_files S) s s'" "tidy dev names"
  shows "names (env s') \<subseteq> names (env s) \<union> S"
  using assms
proof (induction rule: walks.induct)
  case walks_refl
  then show ?case by simp
next
  case (walks_step s1 e s2)
  from walks_step.hyps(2) obtain x' where st: "env_step dev (env s1) e x'" and e2: "env s2 = x'"
    by (auto simp: stepped_def)
  have "names x' \<subseteq> insert (call_path e) (names (env s1))"
    by (rule tidy_step[OF walks_step.prems st]) (use walks_step.hyps(3) in \<open>simp add: on_files_def\<close>)
  then show ?case using walks_step.IH[OF walks_step.prems] walks_step.hyps(3) e2
    by (auto simp: on_files_def)
next
  case (walks_emit s1 sig)
  then show ?case by simp
next
  case (walks_error s1 x)
  then show ?case by simp
qed


lemma walks_log:
  assumes "walks E dev P s s'"
  shows "logged P s s'"
  using assms
  by (induction rule: walks.induct) (auto intro: logged_stepped)

lemma initialize_verify_walks:
  assumes "initialize_verify E dev i s = (ok, s')" "f_path (file_infos s ! i) \<in> S"
  shows "walks E dev (on_files S) s s'"
  using assms(1) unfolding initialize_verify_def Let_def
  by (auto split: prod.splits bool.splits if_splits dest!: walks_seek[OF assms(2)]
      intro!: walks_emit walks_error elim: walks_trans)

lemma initialize_create_walks:
  assumes "initialize_create E dev i s = (ok, s')" "f_path (file_infos s ! i) \<in> S"
  shows "walks E dev (on_files S) s s'"
proof -
  have st: "stepped E dev x e y \<Longrightarrow> call_path e = f_path (file_infos s ! i) \<Longrightarrow> \<not> is_remove e \<Longrightarrow>
      walks E dev (on_files S) x y" for x e y
    using assms(2) by (auto intro!: walks_stepI simp: on_files_def)
  show ?thesis
    using assms(1) unfolding initialize_create_def Let_def
    by (auto split: prod.splits bool.splits if_splits
        dest!: walks_seek[OF assms(2)] stepped_do
        intro!: walks_emit walks_error)
       (meson walks_trans st[unfolded call_path_def is_remove_def, simplified] assms(2)
          walks_stepI on_files_simps)+
qed


lemma initialize_file_walks:
  assumes "initialize_file E dev i s = (ok, s')" "f_path (file_infos s ! i) \<in> S"
  shows "walks E dev (on_files S) s s'"
proof -
  obtain r1 s1 where c: "initialize_create E dev i s = (r1, s1)"
    by (cases "initialize_create E dev i s")
  have w1: "walks E dev (on_files S) s s1" using c assms(2) by (rule initialize_create_walks)
  show ?thesis
  proof (cases r1)
    case False
    then show ?thesis using assms c w1 by (simp add: initialize_file_def)
  next
    case True
    then have v: "initialize_verify E dev i s1 = (ok, s')"
      using assms c by (simp add: initialize_file_def)
    have "file_infos s1 = file_infos s" using walks_same_plan[OF w1] by (simp add: same_plan_def)
    then have "f_path (file_infos s1 ! i) \<in> S" using assms(2) by simp
    from walks_trans[OF w1 initialize_verify_walks[OF v this]] show ?thesis .
  qed
qed

lemma planned_paths_nth: "same_plan s x \<Longrightarrow> i < length (file_infos s) \<Longrightarrow>
    f_path (file_infos x ! i) \<in> planned_paths s"
  by (simp add: planned_paths_def same_plan_def)

lemma initialize_walks:
  assumes "initialize E dev s = (ok, s')"
  shows "walks E dev (on_files (planned_paths s)) s s'"
proof -
  let ?R = "\<lambda>ok x. walks E dev (on_files (planned_paths s)) s x"
  obtain r1 s1 where 1: "for_each (initialize_file E dev) [0..<length (file_infos s)]
             (emit (initializationStarted (bytes_total s)) s) = (r1, s1)"
    by (cases "for_each (initialize_file E dev) [0..<length (file_infos s)]
             (emit (initializationStarted (bytes_total s)) s)")
  have p1: "?R r1 s1"
  proof (rule for_each_rule[where R = ?R, OF 1])
    show "?R True (emit (initializationStarted (bytes_total s)) s)"
      by (auto intro: walks.intros)
  next
    fix i x r y
    assume i: "i \<in> set [0..<length (file_infos s)]" and R: "?R True x"
      and b: "initialize_file E dev i x = (r, y)"
    have "f_path (file_infos x ! i) \<in> planned_paths s"
      using planned_paths_nth[OF walks_same_plan[OF R]] i by simp
    from walks_trans[OF R initialize_file_walks[OF b this]] show "?R r y" .
  qed
  show ?thesis
  proof (cases r1)
    case False
    then show ?thesis using assms 1 p1 by (simp add: initialize_def)
  next
    case True
    then have 2: "for_each (initialize_verify E dev) [0..<length (file_infos s1)] s1 = (ok, s')"
      using assms 1 by (simp add: initialize_def)
    have len: "length (file_infos s1) = length (file_infos s)"
      using walks_same_plan[OF p1] by (simp add: same_plan_def)
    show ?thesis
    proof (rule for_each_rule[where R = ?R, OF 2])
      show "?R True s1" by (rule p1)
    next
      fix i x r y
      assume i: "i \<in> set [0..<length (file_infos s1)]" and R: "?R True x"
        and b: "initialize_verify E dev i x = (r, y)"
      have "f_path (file_infos x ! i) \<in> planned_paths s"
        using planned_paths_nth[OF walks_same_plan[OF R]] i len by simp
      from walks_trans[OF R initialize_verify_walks[OF b this]] show "?R r y" .
    qed
  qed
qed

lemma writeFull_block_walks:
  assumes "writeFull_block E dev i j s = Inr (ok, s')" "f_path (file_infos s ! i) \<in> S"
  shows "walks E dev (on_files S) s s'"
  using assms(1) unfolding writeFull_block_def Let_def
  by (auto split: sum.splits prod.splits bool.splits if_splits dest!: walks_seek[OF assms(2)]
      intro!: walks_emit walks_error walks_fsync assms(2))

lemma verifyFull_block_walks:
  assumes "verifyFull_block E dev i j s = Inr (ok, s')" "f_path (file_infos s ! i) \<in> S"
  shows "walks E dev (on_files S) s s'"
  using assms(1) unfolding verifyFull_block_def Let_def
  by (auto split: sum.splits prod.splits bool.splits if_splits dest!: walks_seek[OF assms(2)]
      intro!: walks_emit walks_error)

lemma writeFull_file_walks:
  assumes "writeFull_file E dev i s = Inr (ok, s')" "f_path (file_infos s ! i) \<in> S"
  shows "walks E dev (on_files S) s s'"
proof -
  let ?R = "\<lambda>ok x. walks E dev (on_files S) s x"
  show ?thesis
    using assms(1) unfolding writeFull_file_def Let_def
  proof (rule for_each_a_rule[where R = ?R])
    show "?R True (do_fsync E dev (f_path (file_infos s ! i)) s)"
      by (rule walks_fsync[OF walks_refl assms(2)])
  next
    fix j x r y
    assume R: "?R True x" and b: "writeFull_block E dev i j x = Inr (r, y)"
    have "file_infos x = file_infos s" using walks_same_plan[OF R] by (simp add: same_plan_def)
    then have "f_path (file_infos x ! i) \<in> S" using assms(2) by simp
    from walks_trans[OF R writeFull_block_walks[OF b this]] show "?R r y" .
  qed
qed

lemma verifyFull_file_walks:
  assumes "verifyFull_file E dev i s = Inr (ok, s')" "f_path (file_infos s ! i) \<in> S"
  shows "walks E dev (on_files S) s s'"
proof -
  let ?R = "\<lambda>ok x. walks E dev (on_files S) s x"
  show ?thesis
    using assms(1) unfolding verifyFull_file_def Let_def
  proof (rule for_each_a_rule[where R = ?R])
    show "?R True (do_fsync E dev (f_path (file_infos s ! i)) s)"
      by (rule walks_fsync[OF walks_refl assms(2)])
  next
    fix j x r y
    assume R: "?R True x" and b: "verifyFull_block E dev i j x = Inr (r, y)"
    have "file_infos x = file_infos s" using walks_same_plan[OF R] by (simp add: same_plan_def)
    then have "f_path (file_infos x ! i) \<in> S" using assms(2) by simp
    from walks_trans[OF R verifyFull_block_walks[OF b this]] show "?R r y" .
  qed
qed

lemma writeFull_walks:
  assumes "writeFull E dev s = Inr (ok, s')"
  shows "walks E dev (on_files (planned_paths s)) s s'"
proof -
  let ?R = "\<lambda>ok x. walks E dev (on_files (planned_paths s)) s x"
  show ?thesis
    using assms(1) unfolding writeFull_def
  proof (rule for_each_a_rule[where R = ?R])
    show "?R True (emit writeStarted s)" by (auto intro: walks.intros)
  next
    fix i x r y
    assume i: "i \<in> set [0..<length (file_infos s)]" and R: "?R True x"
      and b: "writeFull_file E dev i x = Inr (r, y)"
    have "f_path (file_infos x ! i) \<in> planned_paths s"
      using planned_paths_nth[OF walks_same_plan[OF R]] i by simp
    from walks_trans[OF R writeFull_file_walks[OF b this]] show "?R r y" .
  qed
qed

lemma verifyFull_walks:
  assumes "verifyFull E dev s = Inr (ok, s')"
  shows "walks E dev (on_files (planned_paths s)) s s'"
proof -
  let ?R = "\<lambda>ok x. walks E dev (on_files (planned_paths s)) s x"
  show ?thesis
    using assms(1) unfolding verifyFull_def
  proof (rule for_each_a_rule[where R = ?R])
    show "?R True (emit verifyStarted s)" by (auto intro: walks.intros)
  next
    fix i x r y
    assume i: "i \<in> set [0..<length (file_infos s)]" and R: "?R True x"
      and b: "verifyFull_file E dev i x = Inr (r, y)"
    have "f_path (file_infos x ! i) \<in> planned_paths s"
      using planned_paths_nth[OF walks_same_plan[OF R]] i by simp
    from walks_trans[OF R verifyFull_file_walks[OF b this]] show "?R r y" .
  qed
qed

lemma planned_paths_same_plan: "same_plan s x \<Longrightarrow> planned_paths x = planned_paths s"
  by (simp add: planned_paths_def same_plan_def)

lemma start_tests_walks:
  assumes "start_tests E dev s = Inr (ok, s')"
  shows "walks E dev (on_files (planned_paths s)) s s'"
proof -
  obtain r1 s1 where 1: "initialize E dev s = (r1, s1)" by (cases "initialize E dev s")
  have w1: "walks E dev (on_files (planned_paths s)) s s1" using 1 by (rule initialize_walks)
  have pp1: "planned_paths s1 = planned_paths s"
    by (rule planned_paths_same_plan[OF walks_same_plan[OF w1]])
  show ?thesis
  proof (cases r1)
    case False
    then show ?thesis using assms 1 w1 by (simp add: start_tests_def)
  next
    case True
    show ?thesis
    proof (cases "writeFull E dev s1")
      case (Inl a)
      then show ?thesis using assms 1 True by (simp add: start_tests_def)
    next
      case (Inr p)
      obtain r2 s2 where p: "p = (r2, s2)" by (cases p)
      have 2: "writeFull E dev s1 = Inr (r2, s2)" using Inr p by simp
      have w2: "walks E dev (on_files (planned_paths s)) s s2"
        using walks_trans[OF w1] writeFull_walks[OF 2] pp1 by simp
      have pp2: "planned_paths s2 = planned_paths s"
        by (rule planned_paths_same_plan[OF walks_same_plan[OF w2]])
      show ?thesis
      proof (cases r2)
        case False
        then show ?thesis using assms 1 True 2 w2 by (simp add: start_tests_def)
      next
        case r2: True
        then have 3: "verifyFull E dev s2 = Inr (ok, s')"
          using assms 1 True 2 by (simp add: start_tests_def)
        show ?thesis using walks_trans[OF w2] verifyFull_walks[OF 3] pp2 by simp
      qed
    qed
  qed
qed

lemma stepped_env: "stepped E dev s e s' \<Longrightarrow> env_step dev (env s) e (env s')"
  by (auto simp: stepped_def)

lemma deleteFiles_loop_names:
  assumes "tidy dev names" "k \<le> length (file_infos s)"
  shows "names (env (deleteFiles_loop E dev k s)) \<subseteq> names (env s) \<and>
     (\<forall>f \<in> set (take k (file_infos s)).
        f_path f \<in> names (env (deleteFiles_loop E dev k s)) \<longrightarrow>
        QRemove (f_path f) False \<in> set (drop (length (oplog s)) (oplog (deleteFiles_loop E dev k s))))"
  using assms(2)
proof (induction k arbitrary: s)
  case 0
  then show ?case by simp
next
  case (Suc k)
  define p where "p = f_path (file_infos s ! k)"
  define s1 where "s1 = snd (do_remove E dev p s)"
  define s2 where "s2 = s1\<lparr>file_infos := removeAt k (file_infos s1)\<rparr>"
  define r where "r = fst (do_remove E dev p s)"
  define s' where "s' = deleteFiles_loop E dev k s2"
  have dr: "do_remove E dev p s = (r, s1)" by (simp add: r_def s1_def)
  have st: "stepped E dev s (QRemove p r) s1" using dr by (rule stepped_do)
  have f1: "file_infos s1 = file_infos s" "oplog s1 = oplog s @ [QRemove p r]"
    using stepped_fields[OF st] by (simp_all add: same_plan_def)
  have n1: "names (env s1) \<subseteq> (if r then names (env s) - {p} else names (env s))"
    using assms(1) stepped_env[OF st] unfolding tidy_def by fastforce
  have f2: "file_infos s2 = take k (file_infos s) @ drop (Suc k) (file_infos s)"
    "oplog s2 = oplog s @ [QRemove p r]" "env s2 = env s1"
    by (simp_all add: s2_def f1 removeAt_def)
  have step: "deleteFiles_loop E dev (Suc k) s = s'"
    by (simp add: Let_def s1_def s2_def s'_def p_def)
  have k: "k \<le> length (file_infos s2)" using Suc.prems by (simp add: f2)
  have tk: "take k (file_infos s2) = take k (file_infos s)"
    using Suc.prems by (simp add: f2)
  from Suc.IH[OF k] have ih1: "names (env s') \<subseteq> names (env s1)"
    and ih2: "\<And>f. f \<in> set (take k (file_infos s)) \<Longrightarrow> f_path f \<in> names (env s') \<Longrightarrow>
        QRemove (f_path f) False \<in> set (drop (length (oplog s2)) (oplog s'))"
    by (simp_all add: s'_def f2(3) tk)
  obtain rs where lg: "oplog s' = oplog s2 @ rs"
    using deleteFiles_loop_spec[OF k, of E dev] by (auto simp: s'_def)
  have dl: "drop (length (oplog s)) (oplog s') = QRemove p r # rs"
    "drop (length (oplog s2)) (oplog s') = rs"
    by (simp_all add: lg f2(2))
  have A: "names (env s') \<subseteq> names (env s)"
    using ih1 n1 by (auto split: if_splits)
  have B: "QRemove (f_path f) False \<in> set (drop (length (oplog s)) (oplog s'))"
    if f: "f \<in> set (take (Suc k) (file_infos s))" and n: "f_path f \<in> names (env s')" for f
  proof -
    from f Suc.prems have "f \<in> set (take k (file_infos s)) \<or> f = file_infos s ! k"
      by (auto simp: take_Suc_conv_app_nth)
    then show ?thesis
    proof
      assume "f \<in> set (take k (file_infos s))"
      from ih2[OF this n] show ?thesis by (simp add: dl)
    next
      assume "f = file_infos s ! k"
      then have fp: "f_path f = p" by (simp add: p_def)
      have "p \<in> names (env s1)" using n ih1 fp by auto
      then have "\<not> r" using n1 by (auto split: if_splits)
      then show ?thesis by (simp add: dl fp)
    qed
  qed
  show ?case unfolding step using A B by blast
qed

lemma deleteFiles_names:
  assumes "deleteFiles E dev s = Inr s'" "tidy dev names"
  shows "names (env s') \<subseteq> names (env s)"
    "n \<in> names (env s') \<Longrightarrow> n \<in> planned_paths s \<Longrightarrow>
       QRemove n False \<in> set (drop (length (oplog s)) (oplog s'))"
proof -
  have s': "s' = deleteFiles_loop E dev (length (file_infos s)) s"
    using assms(1) by (auto simp: deleteFiles_def Let_def split: if_splits)
  from deleteFiles_loop_names[OF assms(2) order_refl, where s = s and E = E]
  show "names (env s') \<subseteq> names (env s)" by (simp add: s')
  show "n \<in> names (env s') \<Longrightarrow> n \<in> planned_paths s \<Longrightarrow>
       QRemove n False \<in> set (drop (length (oplog s)) (oplog s'))"
    using deleteFiles_loop_names[OF assms(2) order_refl, where s = s and E = E]
    by (auto simp: s' planned_paths_def)
qed

lemma start_run_names:
  assumes t: "start_tests E dev s = Inr (ok, s2)" and r: "start_run E dev s = Inr s3"
    and td: "tidy dev names"
  shows "names (env s3) \<subseteq> names (env s) \<union> planned_paths s"
    and "n \<in> names (env s3) \<Longrightarrow> n \<in> planned_paths s \<Longrightarrow>
           QRemove n False \<in> set (drop (length (oplog s2)) (oplog s3))"
proof -
  define sig where "sig = (if ok then succeeded else failed (Some (error_type s2)))"
  define x where "x = emit finished (emit sig s2)"
  have w: "walks E dev (on_files (planned_paths s)) s s2" using t by (rule start_tests_walks)
  have sp: "same_plan s s2" by (rule walks_same_plan[OF w])
  have fx: "oplog x = oplog s2" "env x = env s2" "planned_paths x = planned_paths s"
    using sp by (simp_all add: x_def same_plan_def planned_paths_def)
  have d: "deleteFiles E dev x = Inr s3"
    using r by (cases ok) (simp_all add: start_run_def t start_finish_def x_def sig_def)
  have a: "names (env s2) \<subseteq> names (env s) \<union> planned_paths s" by (rule walks_names[OF w td])
  have b: "names (env s3) \<subseteq> names (env s2)" using deleteFiles_names(1)[OF d td] by (simp add: fx)
  from a b show "names (env s3) \<subseteq> names (env s) \<union> planned_paths s" by blast
  show "n \<in> names (env s3) \<Longrightarrow> n \<in> planned_paths s \<Longrightarrow>
           QRemove n False \<in> set (drop (length (oplog s2)) (oplog s3))"
    using deleteFiles_names(2)[OF d td, of n] by (simp add: fx)
qed

text \<open>On a plan that passes the assertions of \<open>blockData\<close> the run returns.\<close>

lemma start_tests_total:
  assumes "planned s"
  shows "\<exists>ok s2. start_tests E dev s = Inr (ok, s2)"
proof -
  obtain r1 s1 where 1: "initialize E dev s = (r1, s1)" by (cases "initialize E dev s")
  have sp: "same_plan s s1" using reaches_same_plan[OF initialize_reaches(1)[OF 1]] .
  have pl1: "planned s1" using sp assms by (rule planned_same_plan)
  from writeFull_logged[OF pl1, of E dev] obtain r2 s2 where
    2: "writeFull E dev s1 = Inr (r2, s2)" and lw: "logged (block_call s1) s1 s2" by blast
  from verifyFull_logged[OF logged_plan[OF lw] pl1, of E dev] obtain r3 s3 where
    3: "verifyFull E dev s2 = Inr (r3, s3)" by blast
  show ?thesis using 1 2 3 by (cases r1; cases r2) (auto simp: start_tests_def)
qed

lemma start_run_total:
  assumes "planned s"
  shows "\<exists>s'. start_run E dev s = Inr s'"
proof -
  from start_tests_total[OF assms, of E dev] obtain ok s2 where
    t: "start_tests E dev s = Inr (ok, s2)" by blast
  show ?thesis
  proof (cases ok)
    case True
    then have "start_tests E dev s = Inr (True, s2)" using t by simp
    from start_run_succeeded[OF this] show ?thesis by blast
  next
    case False
    then have "start_tests E dev s = Inr (False, s2)" using t by simp
    from start_run_failed[OF this] show ?thesis by blast
  qed
qed

text \<open>The simulated volume has tidy names.\<close>

lemma sim_put_names: "fst ` set (sim_put p v fs) = insert p (fst ` set fs)"
  by (induction p v fs rule: sim_put.induct) auto

lemma sim_names_tick [simp]: "sim_names (sim_tick e) = sim_names e"
  by (simp add: sim_names_def sim_tick_def)

lemma sim_names_put:
  "sim_names (e\<lparr>sim_files := sim_put p v (sim_files e)\<rparr>) = insert p (sim_names e)"
  by (simp add: sim_names_def sim_put_names)

lemma sim_names_some: "map_of (sim_files e) p = Some v \<Longrightarrow> insert p (sim_names e) = sim_names e"
  unfolding sim_names_def by (metis map_of_SomeD fst_conv image_eqI insert_absorb)

lemma sim_names_filter:
  "sim_names (e\<lparr>sim_files := filter (\<lambda>(q, _). q \<noteq> p) (sim_files e)\<rparr>) = sim_names e - {p}"
  unfolding sim_names_def by force

lemma sim_tidy: "tidy sim_dev sim_names"
  unfolding tidy_def
proof (intro allI impI)
  fix x e x'
  assume st: "env_step sim_dev x e x'"
  show "case e of
           QOpen p ok perm \<Rightarrow> sim_names x' \<subseteq> insert p (sim_names x)
         | QRemove p r \<Rightarrow> sim_names x' \<subseteq> (if r then sim_names x - {p} else sim_names x)
         | _ \<Rightarrow> sim_names x' \<subseteq> sim_names x"
  proof (cases e)
    case (QOpen p ok perm)
    then show ?thesis using st
      by (auto simp: sim_dev_def sim_open_def sim_names_put split: option.splits)
  next
    case (QSeek p pos r)
    then show ?thesis using st
      by (auto simp: sim_dev_def sim_seek_def sim_names_put sim_names_some
          split: option.splits if_splits)
  next
    case (QWrite p d n)
    then show ?thesis using st
      by (auto simp: sim_dev_def sim_write_def sim_names_put sim_names_some Let_def
          split: option.splits if_splits)
  next
    case (QResize p n r)
    then show ?thesis using st
      by (auto simp: sim_dev_def sim_resize_def sim_names_put sim_names_some
          split: option.splits if_splits)
  next
    case (QPutChar p b r)
    then show ?thesis using st
      by (auto simp: sim_dev_def sim_putChar_def sim_names_put sim_names_some
          split: option.splits if_splits)
  next
    case (QGetChar p c)
    then show ?thesis using st
      by (auto simp: sim_dev_def sim_getChar_def sim_names_put sim_names_some
          split: option.splits if_splits)
  next
    case (QRead p n d)
    then show ?thesis using st
      by (auto simp: sim_dev_def sim_read_def sim_names_put sim_names_some Let_def
          split: option.splits if_splits)
  next
    case (QFsync p)
    then show ?thesis using st
      by (auto simp: sim_dev_def)
  next
    case (QRemove p r)
    then show ?thesis using st
      by (auto simp: sim_dev_def sim_remove_def sim_names_filter
          split: option.splits if_splits)
  qed
qed

section \<open>Cancellation during the writer: the run and the volume (C6)\<close>

text \<open>
  C6 as stated fails in its last part: \<open>deleteFiles\<close> does not look at what \<open>remove()\<close>
  returns. On the volume where \<open>remove\<close> fails and \<open>cancel()\<close> is called during the writer,
  the writer returns \<open>false\<close> after the request, the plan is emptied, and the test file is
  still on the volume, where \<open>conflictFiles\<close> reports it.
\<close>

theorem cancel_during_writeFull_counterexample:
  "case initialize sim_Error sim_dev (sim_session sim_canceled_stuck) of
     (ok, s1) \<Rightarrow> ok \<and>
       (case writeFull sim_Error sim_dev s1 of
          Inl a \<Rightarrow> False
        | Inr (ok2, s2) \<Rightarrow> \<not> ok2 \<and> canceled s2 \<and> cancel_pos s2 = Some 16 \<and>
            (case start_run sim_Error sim_dev (sim_session sim_canceled_stuck) of
               Inl a \<Rightarrow> False
             | Inr s3 \<Rightarrow> file_infos s3 = [] \<and>
                 drop (length (oplog s3) - 1) (oplog s3) = [QRemove ''/mnt/CAPACITYTESTER0'' False] \<and>
                 map fst (sim_files (env s3)) = [''/mnt/CAPACITYTESTER0''] \<and>
                 conflictFiles sim_dev s3 = Inr [''CAPACITYTESTER0'']))"
  by code_simp

text \<open>
  C6 (as amended). Let the initialization pass and let \<open>cancel()\<close> be called while
  \<open>writeFull\<close> runs (the flag is clear before \<open>start\<close>, every planned file has a block, and
  the flag is set when the writer returns). Then the writer returns \<open>false\<close>; the
  \<open>Aborted\<close> bit is set; \<open>cancel()\<close> ran after some call of the writer and at most one
  write was made after it (the block in flight), the writer returning at the next check of
  the flag; and the run ends: \<open>start\<close> emits \<open>failed\<close> with that error mask and
  \<open>finished\<close>, then calls \<open>remove\<close> on every planned file, last created first, making no
  other call, and empties the plan. Every call before the cleanup was made on a planned
  file, so every created file is among those \<open>remove\<close> is called on. On a device with tidy
  names, a name on the volume after the run was there before the run or is a planned file,
  and a planned file is still there only if its \<open>remove\<close> returned \<open>false\<close>: every file
  whose removal succeeds is gone.
\<close>

theorem cancel_during_writeFull:
  assumes "\<not> canceled s" "cancel_pos s = None"
    and "\<forall>f \<in> set (file_infos s). f_blocks f \<noteq> []"
    and "initialize E dev s = (True, s1)"
    and "writeFull E dev s1 = Inr (ok, s2)"
    and "canceled s2"
  shows "\<not> ok \<and> error_type s2 AND Aborted E = Aborted E \<and>
     (\<exists>n. cancel_pos s2 = Some n \<and> length (oplog s1) < n \<and> n \<le> length (oplog s2) \<and>
          length (filter is_write (drop n (oplog s2))) \<le> 1) \<and>
     (\<exists>s3 rs. start_run E dev s = Inr s3 \<and>
          events s3 = events s2 @ [failed (Some (error_type s2)), finished] \<and>
          file_infos s3 = [] \<and> length rs = length (file_infos s) \<and>
          oplog s3 = oplog s2 @ map (\<lambda>(f, r). QRemove (f_path f) r) (zip (rev (file_infos s)) rs) \<and>
          logged (on_files (planned_paths s)) s s2 \<and>
          (\<forall>names. tidy dev names \<longrightarrow>
             names (env s3) \<subseteq> names (env s) \<union> planned_paths s \<and>
             (\<forall>n \<in> names (env s3) \<inter> planned_paths s.
                QRemove n False \<in> set (drop (length (oplog s2)) (oplog s3)))))"
proof -
  have wf: "cancel_wf E s" using assms(1,2) by (simp add: cancel_wf_def)
  have r1: "reaches E dev s s1" using assms(4) by (rule initialize_reaches(1))
  have wf1: "cancel_wf E s1" using r1 wf by (rule reaches_cancel_wf)
  have nc1: "\<not> canceled s1" using initialize_reaches(2)[OF assms(4)] assms(1) by simp
  have fi1: "file_infos s1 = file_infos s" using reaches_same_plan[OF r1] by (simp add: same_plan_def)
  have ne1: "\<forall>f \<in> set (file_infos s1). f_blocks f \<noteq> []" using assms(3) fi1 by simp
  have cp: "cancel_post E (length (oplog s1)) ok s2"
    using assms(5) wf1 nc1 ne1 by (rule writeFull_cancel(1))
  have nok: "\<not> ok" using writeFull_cancel(2)[OF assms(5) wf1 nc1 ne1] assms(6) by blast
  have wf2: "cancel_wf E s2" using cp by (simp add: cancel_post_def)
  have flag: "error_type s2 AND Aborted E = Aborted E"
    using wf2 assms(6) by (simp add: cancel_wf_def has_flag_def)
  from wf2 assms(6) obtain n where n: "cancel_pos s2 = Some n" by (auto simp: cancel_wf_def)
  have pos: "length (oplog s1) < n" "n \<le> length (oplog s2)"
    "length (filter is_write (drop n (oplog s2))) \<le> 1"
    using cp wf2 n by (auto simp: cancel_post_def cancel_wf_def writes_after_cancel_def)
  have t: "start_tests E dev s = Inr (False, s2)"
    using assms(4,5) nok by (simp add: start_tests_def)
  from start_run_failed[OF t] obtain s3 rs where
    run: "start_run E dev s = Inr s3" "events s3 = events s2 @ [failed (Some (error_type s2)), finished]"
    "file_infos s3 = []" "length rs = length (file_infos s)"
    "oplog s3 = oplog s2 @ map (\<lambda>(f, r). QRemove (f_path f) r) (zip (rev (file_infos s)) rs)"
    by blast
  have lg: "logged (on_files (planned_paths s)) s s2"
    by (rule walks_log[OF start_tests_walks[OF t]])
  have nm: "\<forall>names. tidy dev names \<longrightarrow>
             names (env s3) \<subseteq> names (env s) \<union> planned_paths s \<and>
             (\<forall>n \<in> names (env s3) \<inter> planned_paths s.
                QRemove n False \<in> set (drop (length (oplog s2)) (oplog s3)))"
    using start_run_names[OF t run(1)] by blast
  have cancel_part: "\<exists>n. cancel_pos s2 = Some n \<and> length (oplog s1) < n \<and> n \<le> length (oplog s2) \<and>
          length (filter is_write (drop n (oplog s2))) \<le> 1"
    using n pos by blast
  have run_part: "\<exists>s3 rs. start_run E dev s = Inr s3 \<and>
          events s3 = events s2 @ [failed (Some (error_type s2)), finished] \<and>
          file_infos s3 = [] \<and> length rs = length (file_infos s) \<and>
          oplog s3 = oplog s2 @ map (\<lambda>(f, r). QRemove (f_path f) r) (zip (rev (file_infos s)) rs) \<and>
          logged (on_files (planned_paths s)) s s2 \<and>
          (\<forall>names. tidy dev names \<longrightarrow>
             names (env s3) \<subseteq> names (env s) \<union> planned_paths s \<and>
             (\<forall>n \<in> names (env s3) \<inter> planned_paths s.
                QRemove n False \<in> set (drop (length (oplog s2)) (oplog s3))))"
    using run lg nm by blast
  from nok flag cancel_part run_part show ?thesis by blast
qed

theorem cancel_during_writeFull_witness:
  "\<exists>s1 s2 s3. initialize sim_Error sim_dev (sim_session sim_canceled) = (True, s1) \<and>
      writeFull sim_Error sim_dev s1 = Inr (False, s2) \<and>
      cancel_pos s2 = Some 16 \<and> length (oplog s2) = 16 \<and>
      error_type s2 AND Aborted sim_Error = Aborted sim_Error \<and>
      start_run sim_Error sim_dev (sim_session sim_canceled) = Inr s3 \<and>
      events s3 = events s2 @ [failed (Some (error_type s2)), finished] \<and>
      file_infos s3 = [] \<and>
      oplog s3 = oplog s2 @ [QRemove ''/mnt/CAPACITYTESTER0'' True] \<and>
      sim_names (env s3) = {}"
proof -
  have "case initialize sim_Error sim_dev (sim_session sim_canceled) of
          (ok, s1) \<Rightarrow> ok \<and>
            (case writeFull sim_Error sim_dev s1 of
               Inl a \<Rightarrow> False
             | Inr (ok2, s2) \<Rightarrow> canceled s2 \<and> cancel_pos s2 = Some 16 \<and> length (oplog s2) = 16)"
    by code_simp
  then obtain s1 ok2 s2 where i: "initialize sim_Error sim_dev (sim_session sim_canceled) = (True, s1)"
    and w: "writeFull sim_Error sim_dev s1 = Inr (ok2, s2)"
    and c: "canceled s2" "cancel_pos s2 = Some 16" "length (oplog s2) = 16"
    by (auto split: prod.splits sum.splits)
  have e: "case start_run sim_Error sim_dev (sim_session sim_canceled) of
          Inl a \<Rightarrow> False
        | Inr s3 \<Rightarrow> drop (length (oplog s3) - 1) (oplog s3) = [QRemove ''/mnt/CAPACITYTESTER0'' True]"
    by code_simp
  have h: "\<not> canceled (sim_session sim_canceled)" "cancel_pos (sim_session sim_canceled) = None"
    "\<forall>f \<in> set (file_infos (sim_session sim_canceled)). f_blocks f \<noteq> []"
    by (simp_all add: sim_session_def)
  have n0: "sim_names (env (sim_session sim_canceled)) = {}"
    by (simp add: sim_names_def sim_session_def sim_canceled_def sim_volume_def)
  have fi: "file_infos (sim_session sim_canceled) =
      [\<lparr> f_path = ''/mnt/CAPACITYTESTER0'', f_offset = 0, f_size = 5, f_end = 5,
             f_id = [48, 1],
             f_blocks =
               [\<lparr> b_rel_offset = 0, b_abs_offset = 0, b_size = 4, b_abs_end = 4,
                   b_id = [48, 58, 48, 1] \<rparr>,
                \<lparr> b_rel_offset = 4, b_abs_offset = 4, b_size = 1, b_abs_end = 5,
                   b_id = [48, 58, 49, 1] \<rparr>] \<rparr>]"
    by (simp add: sim_session_def)
  have pp: "planned_paths (sim_session sim_canceled) = {''/mnt/CAPACITYTESTER0''}"
    by (simp add: planned_paths_def fi)
  from cancel_during_writeFull[OF h i w c(1)] obtain s3 rs
    where nok: "\<not> ok2" and fl: "error_type s2 AND Aborted sim_Error = Aborted sim_Error"
      and r: "start_run sim_Error sim_dev (sim_session sim_canceled) = Inr s3"
      and ev: "events s3 = events s2 @ [failed (Some (error_type s2)), finished]"
      and f: "file_infos s3 = []"
      and len: "length rs = length (file_infos (sim_session sim_canceled))"
      and lg: "oplog s3 = oplog s2 @ map (\<lambda>(f, r). QRemove (f_path f) r)
                 (zip (rev (file_infos (sim_session sim_canceled))) rs)"
      and nm: "\<forall>names. tidy sim_dev names \<longrightarrow>
        names (env s3) \<subseteq> names (env (sim_session sim_canceled)) \<union> planned_paths (sim_session sim_canceled) \<and>
        (\<forall>n \<in> names (env s3) \<inter> planned_paths (sim_session sim_canceled).
           QRemove n False \<in> set (drop (length (oplog s2)) (oplog s3)))"
    by blast
  from len obtain r0 where rs: "rs = [r0]" by (cases rs) (auto simp: fi)
  have lg': "oplog s3 = oplog s2 @ [QRemove ''/mnt/CAPACITYTESTER0'' r0]"
    using lg by (simp add: rs fi)
  have r0: "r0" using e by (simp add: r lg')
  note nm' = nm[rule_format, of sim_names, OF sim_tidy, unfolded n0 pp]
  have sub: "sim_names (env s3) \<subseteq> {''/mnt/CAPACITYTESTER0''}"
    using nm'[THEN conjunct1] by simp
  have rem: "n \<in> sim_names (env s3) \<Longrightarrow> n = ''/mnt/CAPACITYTESTER0'' \<Longrightarrow>
      QRemove n False \<in> set (drop (length (oplog s2)) (oplog s3))" for n
    using nm'[THEN conjunct2] by blast
  have "sim_names (env s3) = {}"
  proof (rule ccontr)
    assume "sim_names (env s3) \<noteq> {}"
    then have "''/mnt/CAPACITYTESTER0'' \<in> sim_names (env s3)" using sub by auto
    from rem[OF this refl]
    have "QRemove ''/mnt/CAPACITYTESTER0'' False \<in> set (drop (length (oplog s2)) (oplog s3))" .
    then show False using r0 by (simp add: lg')
  qed
  then show ?thesis using i w nok c fl r ev f lg' r0 by simp
qed

section \<open>Cleanup after every outcome (C8)\<close>





section \<open>Conflict files (C9)\<close>

lemma grows_refl [simp]: "grows x x"
  by (simp add: grows_def)

lemma grows_trans: "grows x y \<Longrightarrow> grows y z \<Longrightarrow> grows x z"
  by (auto simp: grows_def)

lemma reaches_grows: "reaches E dev x y \<Longrightarrow> grows x y"
  by (induction rule: reaches.induct) (auto simp: grows_def dest!: stepped_log)

lemma walks_reaches: "walks E dev P x y \<Longrightarrow> reaches E dev x y"
  by (induction rule: walks.induct) (auto intro: reaches.intros)

lemma for_each_reaches:
  assumes "for_each body is x = (r, y)"
    and "\<And>i a r b. body i a = (r, b) \<Longrightarrow> reaches E dev a b"
  shows "reaches E dev x y"
  using assms(1)
  by (rule for_each_rule[where R = "\<lambda>r z. reaches E dev x z"])
     (auto intro: reaches.intros reaches_trans assms(2))

lemma initialize_create_open:
  assumes "initialize_create E dev i x = (r, y)"
  shows "\<exists>ok perm so. do_open E dev (f_path (file_infos x ! i)) x = ((ok, perm), so) \<and>
           reaches E dev so y"
proof -
  obtain opened perm so where o: "do_open E dev (f_path (file_infos x ! i)) x = ((opened, perm), so)"
    by (cases "do_open E dev (f_path (file_infos x ! i)) x") auto
  have fi: "file_infos so = file_infos x"
    using stepped_do(1)[OF o] by (auto dest!: stepped_log)
  have "reaches E dev so y"
    using assms o unfolding initialize_create_def Let_def
    by (auto split: prod.splits bool.splits if_splits dest!: reaches_seek stepped_do(4) reaches_stepI
        intro!: reaches_emit reaches_error reaches_refl)
       (meson reaches_trans)+
  with o show ?thesis by blast
qed

lemma initialize_open_first:
  assumes run: "initialize E dev s = (r, s1)" and ne: "file_infos s \<noteq> []"
  shows "\<exists>ok perm so. do_open E dev (f_path (file_infos s ! 0))
             (emit (initializationStarted (bytes_total s)) s) = ((ok, perm), so) \<and>
           reaches E dev so s1"
proof -
  define sA where "sA = emit (initializationStarted (bytes_total s)) s"
  have fA: "file_infos sA = file_infos s" by (simp add: sA_def)
  have up: "[0..<length (file_infos s)] = 0 # [1..<length (file_infos s)]"
    using ne by (simp add: upt_conv_Cons)
  obtain rc xc where c: "initialize_create E dev 0 sA = (rc, xc)"
    by (cases "initialize_create E dev 0 sA")
  from initialize_create_open[OF c] obtain ok perm so where
    o: "do_open E dev (f_path (file_infos s ! 0)) sA = ((ok, perm), so)"
    and r0: "reaches E dev so xc"
    by (auto simp: fA)
  obtain rf xf where f: "initialize_file E dev 0 sA = (rf, xf)"
    by (cases "initialize_file E dev 0 sA")
  have r1: "reaches E dev so xf"
  proof (cases rc)
    case False
    then show ?thesis using f c r0 by (simp add: initialize_file_def)
  next
    case True
    then have "initialize_verify E dev 0 xc = (rf, xf)" using f c by (simp add: initialize_file_def)
    from reaches_trans[OF r0 initialize_verify_reaches(1)[OF this]] show ?thesis .
  qed
  obtain rl xl where l: "for_each (initialize_file E dev) [0..<length (file_infos s)] sA = (rl, xl)"
    by (cases "for_each (initialize_file E dev) [0..<length (file_infos s)] sA")
  have r2: "reaches E dev so xl"
  proof (cases rf)
    case False
    then show ?thesis using l f r1 by (simp add: up)
  next
    case True
    then have "for_each (initialize_file E dev) [1..<length (file_infos s)] xf = (rl, xl)"
      using l f by (simp add: up)
    then have "reaches E dev xf xl"
      by (rule for_each_reaches) (rule initialize_file_reaches(1))
    with r1 show ?thesis by (rule reaches_trans)
  qed
  have "reaches E dev so s1"
  proof (cases rl)
    case False
    then show ?thesis using run l r2 by (simp add: initialize_def sA_def)
  next
    case True
    then have "for_each (initialize_verify E dev) [0..<length (file_infos xl)] xl = (r, s1)"
      using run l by (simp add: initialize_def sA_def)
    then have "reaches E dev xl s1"
      by (rule for_each_reaches) (rule initialize_verify_reaches(1))
    with r2 show ?thesis by (rule reaches_trans)
  qed
  with o show ?thesis unfolding sA_def by blast
qed

lemma start_tests_after_initialize:
  assumes "start_tests E dev s = Inr (ok, s2)"
  shows "\<exists>r1 s1. initialize E dev s = (r1, s1) \<and> reaches E dev s1 s2"
proof -
  obtain r1 s1 where 1: "initialize E dev s = (r1, s1)" by (cases "initialize E dev s")
  have "reaches E dev s1 s2"
  proof (cases r1)
    case False
    then show ?thesis using assms 1 by (simp add: start_tests_def reaches_refl)
  next
    case True
    show ?thesis
    proof (cases "writeFull E dev s1")
      case (Inl a)
      then show ?thesis using assms 1 True by (simp add: start_tests_def)
    next
      case (Inr p)
      obtain r2 x2 where p: "p = (r2, x2)" by (cases p)
      have 2: "writeFull E dev s1 = Inr (r2, x2)" using Inr p by simp
      have w2: "reaches E dev s1 x2" by (rule walks_reaches[OF writeFull_walks[OF 2]])
      show ?thesis
      proof (cases r2)
        case False
        then show ?thesis using assms 1 True 2 w2 by (simp add: start_tests_def)
      next
        case r2: True
        then have 3: "verifyFull E dev x2 = Inr (ok, s2)"
          using assms 1 True 2 by (simp add: start_tests_def)
        from reaches_trans[OF w2 walks_reaches[OF verifyFull_walks[OF 3]]] show ?thesis .
      qed
    qed
  qed
  with 1 show ?thesis by blast
qed

lemma start_run_begins:
  assumes run: "start_run E dev s = Inr s'" and ne: "file_infos s \<noteq> []"
  shows "\<exists>ok perm e' rest ev.
     file_open dev (f_path (file_infos s ! 0)) (env s) = ((ok, perm), e') \<and>
     oplog s' = oplog s @ QOpen (f_path (file_infos s ! 0)) ok perm # rest \<and>
     events s' = events s @ initializationStarted (bytes_total s) # ev"
proof -
  from run obtain okt s2 where t: "start_tests E dev s = Inr (okt, s2)"
    by (cases "start_tests E dev s") (auto simp: start_run_def)
  from start_tests_after_initialize[OF t] obtain r1 s1 where
    i: "initialize E dev s = (r1, s1)" and g12: "reaches E dev s1 s2" by blast
  from initialize_open_first[OF i ne] obtain ok perm so where
    o: "do_open E dev (f_path (file_infos s ! 0))
             (emit (initializationStarted (bytes_total s)) s) = ((ok, perm), so)"
    and g01: "reaches E dev so s1" by blast
  have st: "stepped E dev (emit (initializationStarted (bytes_total s)) s)
      (QOpen (f_path (file_infos s ! 0)) ok perm) so"
    using o by (rule stepped_do(1))
  have lo: "oplog so = oplog s @ [QOpen (f_path (file_infos s ! 0)) ok perm]"
    "events so = events s @ [initializationStarted (bytes_total s)]"
    using stepped_log[OF st] by simp_all
  from st obtain e' where fo: "file_open dev (f_path (file_infos s ! 0)) (env s) = ((ok, perm), e')"
    by (auto simp: stepped_def)
  have g: "grows so s2" using reaches_grows[OF reaches_trans[OF g01 g12]] .
  have g3: "grows s2 s'"
  proof (cases okt)
    case True
    then have "start_tests E dev s = Inr (True, s2)" using t by simp
    from start_run_succeeded[OF this] run show ?thesis by (auto simp: grows_def)
  next
    case False
    then have "start_tests E dev s = Inr (False, s2)" using t by simp
    from start_run_failed[OF this] run show ?thesis by (auto simp: grows_def)
  qed
  from grows_trans[OF g g3] obtain ev new where
    "events s' = events so @ ev" "oplog s' = oplog so @ new"
    by (auto simp: grows_def)
  then have "oplog s' = oplog s @ QOpen (f_path (file_infos s ! 0)) ok perm # new"
    "events s' = events s @ initializationStarted (bytes_total s) # ev"
    using lo by simp_all
  with fo show ?thesis by blast
qed

text \<open>
  C9. \<open>conflictFiles\<close> reports the file with the reserved prefix, but \<open>start\<close> never
  consults it: on a volume that holds \<open>CAPACITYTESTER0\<close> before the test, the conflict list
  of a tester built by the constructor is not empty, and \<open>start\<close> on that tester begins the
  test all the same: it emits \<open>initializationStarted\<close> and its first call opens the
  conflict file.
\<close>

theorem start_ignores_conflictFiles:
  "conflictFiles sim_dev (VolumeTester sim_Error sim_dev sim_conflict ''/mnt'') = Inr [''CAPACITYTESTER0''] \<and>
   (\<exists>s' ev rest. start sim_Error sim_dev (VolumeTester sim_Error sim_dev sim_conflict ''/mnt'') = Inr s' \<and>
      events s' = initializationStarted 5 # ev \<and>
      oplog s' = QOpen ''/mnt/CAPACITYTESTER0'' True False # rest)"
proof -
  have c: "conflictFiles sim_dev (VolumeTester sim_Error sim_dev sim_conflict ''/mnt'') = Inr [''CAPACITYTESTER0'']"
    by code_simp
  have v: "isValid_mountpoint sim_dev sim_conflict ''/mnt''"
    by (simp add: isValid_mountpoint_def sim_dev_def sim_conflict_def sim_volume_def)
  have b: "si_bytesAvailable (storage sim_dev sim_conflict ''/mnt'') = 5"
    by (simp add: sim_dev_def sim_conflict_def sim_volume_def)
  define plan where "plan = [\<lparr>f_path = ''/mnt/CAPACITYTESTER0'', f_offset = 0, f_size = 5, f_end = 5,
          f_id = [48, 1],
          f_blocks = [\<lparr>b_rel_offset = 0, b_abs_offset = 0, b_size = 5, b_abs_end = 5,
                       b_id = [48, 58, 48, 1]\<rparr>]\<rparr>]"
  have plan: "start_calculate ''/mnt'' ''CAPACITYTESTER'' 5 (512 * MB) (16 * MB) = Inr plan"
    unfolding plan_def by code_simp
  define s where "s = VolumeTester sim_Error sim_dev sim_conflict ''/mnt''"
  have f: "events s = []" "oplog s = []" "env s = sim_conflict"
    by (simp_all add: s_def VolumeTester_def)
  from start_plans[OF v b _ plan, of sim_Error] obtain pat where
    l: "int (length pat) = 16 * MB" and
    st: "start sim_Error sim_dev s =
       start_run sim_Error sim_dev (s\<lparr>bytes_total := 5, bytes_written := 0,
          bytes_remaining := 5, pattern := pat, file_infos := plan\<rparr>)"
    unfolding s_def by auto
  define s3 where "s3 = s\<lparr>bytes_total := 5, bytes_written := 0,
          bytes_remaining := 5, pattern := pat, file_infos := plan\<rparr>"
  have f3: "events s3 = []" "oplog s3 = []" "env s3 = sim_conflict" "file_infos s3 = plan"
    "bytes_total s3 = 5" "pattern s3 = pat"
    by (simp_all add: s3_def f)
  have pl: "planned s3"
    using l by (simp add: planned_def f3 plan_def MB_def)
  from start_run_total[OF pl, of sim_Error sim_dev] obtain s' where
    r: "start_run sim_Error sim_dev s3 = Inr s'" by blast
  have ne: "file_infos s3 \<noteq> []" by (simp add: f3 plan_def)
  from start_run_begins[OF r ne] obtain ok perm e' rest ev where
    o: "file_open sim_dev (f_path (file_infos s3 ! 0)) (env s3) = ((ok, perm), e')"
    and lg: "oplog s' = oplog s3 @ QOpen (f_path (file_infos s3 ! 0)) ok perm # rest"
    and ev: "events s' = events s3 @ initializationStarted (bytes_total s3) # ev"
    by blast
  have p0: "f_path (plan ! 0) = ''/mnt/CAPACITYTESTER0''"
    by (simp add: plan_def)
  have "fst (file_open sim_dev ''/mnt/CAPACITYTESTER0'' sim_conflict) = (True, False)"
    by code_simp
  then have okp: "ok = True" "perm = False" using o by (simp_all add: f3 p0)
  have "start sim_Error sim_dev s = Inr s'" using st r by (simp add: s3_def)
  moreover have "events s' = initializationStarted 5 # ev" using ev by (simp add: f3)
  moreover have "oplog s' = QOpen ''/mnt/CAPACITYTESTER0'' True False # rest"
    using lg by (simp add: f3 p0 okp)
  ultimately show ?thesis using c unfolding s_def by blast
qed

end
